theory Spec2Isabelle
  imports Main "HOL-Library.Word" "HOL-Library.Multiset"
begin

unbundle bit_operations_syntax

section \<open>Data model of the external-allocator collector (gc\_extalloc.go)\<close>

text \<open>
  The target is 32-bit WebAssembly: \<open>uintptr\<close> is a 32-bit word, \<open>uint64\<close> a 64-bit
  word, both with wrap-around arithmetic.  A \<open>*heapAllocation\<close> always points into
  the backing array of the \<open>allocations\<close> slice, so it is modelled by the index of
  the slot it points to (\<open>None\<close> is the nil pointer).  The fields \<open>end\<close> and
  \<open>next\<close> of the source are written \<open>end'\<close> and \<open>next'\<close>.  Indices and
  lengths of the list are natural numbers: a Go \<open>int\<close> holds every length of a slice
  of 16-byte records in a 32-bit memory, twice that length included.
\<close>

type_synonym uintptr = "32 word"
type_synonym uint64 = "64 word"

record heapAllocation =
  start :: uintptr
  end' :: uintptr
  marked :: bool
  next' :: "nat option"

text \<open>Calls that leave the collector, in the order in which they happen.\<close>

datatype event =
    ExtAlloc uintptr
  | ExtFree uintptr
  | Memzero uintptr uintptr
  | CallGC
  | GrowLimit

text \<open>
  The process-wide variables.  The slice \<open>allocations\<close> is kept as its \<open>len\<close>
  elements (\<open>allocations\<close>), the slots of the backing array between \<open>len\<close> and
  \<open>cap\<close> (\<open>allocSpare\<close>) and the pointer of its header (\<open>allocPtr\<close>).
  \<open>trace\<close> records the calls made so far; \<open>extallocCalls\<close> counts the requests
  sent to the host allocator.
\<close>

record gc_state =
  gcInProgress :: bool
  gcMallocs :: uint64
  gcFrees :: uint64
  gcTotalAlloc :: uint64
  heapUsageLimit :: uintptr
  allocations :: "heapAllocation list"
  allocSpare :: "heapAllocation list"
  allocPtr :: uintptr
  referenceScanQueue :: "nat option"
  extallocCalls :: nat
  trace :: "event list"

definition emit :: "event \<Rightarrow> gc_state \<Rightarrow> gc_state" where
  "emit e s = s\<lparr>trace := trace s @ [e]\<rparr>"

text \<open>\<open>free\<close>: count the call and forward the pointer to \<open>extfree\<close>.\<close>

definition free :: "uintptr \<Rightarrow> gc_state \<Rightarrow> gc_state" where
  "free ptr s = emit (ExtFree ptr) (s\<lparr>gcFrees := gcFrees s + 1\<rparr>)"

text \<open>
  What the collector is given from outside: the words of linear memory as the scanner
  loads them during a cycle (\<open>mem\<close>), the answer of the host allocator to its
  \<open>k\<close>-th request (\<open>extallocRet\<close>, \<open>0\<close> is nil), the address of the
  variable \<open>zeroSizedAlloc\<close>, the value of \<open>align(unsafe.Sizeof(layout))\<close>
  (\<open>align\<close> is declared with the target's architecture), the content of a
  buffer slot that was never written (\<open>junk\<close>), and the two bounds of the heap.
  \<open>stackRanges\<close> and \<open>globalRanges\<close> are described with \<open>markStack\<close> below.
\<close>

record world =
  mem :: "uintptr \<Rightarrow> uintptr"
  stackRanges :: "(uintptr \<times> uintptr) list"
  globalRanges :: "(uintptr \<times> uintptr) list"
  extallocRet :: "nat \<Rightarrow> uintptr \<Rightarrow> uintptr"
  zeroSizedAlloc :: uintptr
  alignedPtrSize :: uintptr
  junk :: heapAllocation
  heapStart :: uintptr
  heapEnd :: uintptr

text \<open>The panics of the runtime (\<open>gcRunningPanic\<close>, \<open>gcAllocPanic\<close>) and \<open>abort\<close>.\<close>

datatype panic = GcRunningPanic | GcAllocPanic | AbortTrap

text \<open>
  A call either returns a value and the new state, or stops the process with a panic, or
  never returns.
\<close>

datatype 'a step = Ok 'a gc_state | Abort panic gc_state | Diverge

definition extalloc :: "world \<Rightarrow> uintptr \<Rightarrow> gc_state \<Rightarrow> uintptr \<times> gc_state" where
  "extalloc w sz s =
     (extallocRet w (extallocCalls s) sz,
      emit (ExtAlloc sz) (s\<lparr>extallocCalls := extallocCalls s + 1\<rparr>))"

section \<open>Sweep\<close>


text \<open>
  The loop of \<open>sweep\<close>: \<open>i\<close> runs over the indices below \<open>n\<close> (the length when the
  \<open>range\<close> loop starts), \<open>j\<close> is the next slot to fill.
\<close>

function sweep_loop :: "nat \<Rightarrow> nat \<Rightarrow> nat \<Rightarrow> gc_state \<Rightarrow> nat \<times> gc_state" where
  "sweep_loop n i j s =
     (if i < n then
        (let curAlloc = allocations s ! i in
         if \<not> marked curAlloc then sweep_loop n (i + 1) j (free (start curAlloc) s)
         else sweep_loop n (i + 1) (j + 1)
                (s\<lparr>allocations := (allocations s)[j := curAlloc],
                   gcTotalAlloc := gcTotalAlloc s + ucast (end' curAlloc - start curAlloc)\<rparr>))
      else (j, s))"
  by pat_completeness auto
termination
  by (relation "measure (\<lambda>(n, i, j, s). n - i)") auto

declare sweep_loop.simps [simp del]

text \<open>
  \<open>allocations = allocations[:j]\<close> keeps the first \<open>j\<close> slots; the others stay in the
  backing array, beyond the new length.
\<close>

definition sweep :: "gc_state \<Rightarrow> gc_state" where
  "sweep s =
     (let (j, s') = sweep_loop (length (allocations s)) 0 0 (s\<lparr>gcTotalAlloc := 0\<rparr>) in
      s'\<lparr>allocations := take j (allocations s'),
         allocSpare := drop j (allocations s') @ allocSpare s'\<rparr>)"

definition allocSize :: "heapAllocation \<Rightarrow> uint64" where
  "allocSize r = ucast (end' r - start r)"


section \<open>Sorting and searching the registry\<close>

text \<open>
  \<open>heapify\<close> is only called with \<open>0 \<le> i\<close> and \<open>n \<le> len(arr)\<close>, so the indices are
  natural numbers and every access that the guards \<open>left < n\<close>, \<open>right < n\<close> allow
  is inside the slice.
\<close>

function heapify :: "heapAllocation list \<Rightarrow> nat \<Rightarrow> nat \<Rightarrow> heapAllocation list" where
  "heapify arr n i =
     (let left = 2 * i + 1;
          right = 2 * i + 2;
          max1 = (if left < n \<and> start (arr ! left) > start (arr ! i) then left else i);
          max2 = (if right < n \<and> start (arr ! right) > start (arr ! max1) then right else max1)
      in if max2 \<noteq> i then heapify (arr[i := arr ! max2, max2 := arr ! i]) n max2 else arr)"
  by pat_completeness auto
termination
  by (relation "measure (\<lambda>(arr, n, i). n - i)") (auto simp: Let_def split: if_splits)

declare heapify.simps [simp del]

text \<open>The first loop of \<open>sortAllocations\<close>: \<open>i\<close> is a signed \<open>int\<close> that ends at \<open>-1\<close>.\<close>

function buildHeap :: "heapAllocation list \<Rightarrow> nat \<Rightarrow> int \<Rightarrow> heapAllocation list" where
  "buildHeap arr n i = (if i \<ge> 0 then buildHeap (heapify arr n (nat i)) n (i - 1) else arr)"
  by pat_completeness auto
termination
  by (relation "measure (\<lambda>(arr, n, i). nat (i + 1))") auto

declare buildHeap.simps [simp del]

text \<open>The second loop: move the root behind the heap and repair the heap before it.\<close>

function sortLoop :: "heapAllocation list \<Rightarrow> int \<Rightarrow> heapAllocation list" where
  "sortLoop arr e =
     (if e > 0 then
        sortLoop (heapify (arr[0 := arr ! nat e, nat e := arr ! 0]) (nat e) 0) (e - 1)
      else arr)"
  by pat_completeness auto
termination
  by (relation "measure (\<lambda>(arr, e). nat e)") auto

declare sortLoop.simps [simp del]

definition sortAllocations :: "heapAllocation list \<Rightarrow> heapAllocation list" where
  "sortAllocations arr =
     (let n = int (length arr) in sortLoop (buildHeap arr (nat n) (n div 2 - 1)) (n - 1))"

definition unmarkAllocations :: "heapAllocation list \<Rightarrow> heapAllocation list" where
  "unmarkAllocations arr = map (\<lambda>r. r\<lparr>marked := False, next' := None\<rparr>) arr"

definition prepareGC :: "gc_state \<Rightarrow> gc_state" where
  "prepareGC s =
     s\<lparr>allocations := unmarkAllocations (sortAllocations (allocations s)),
       referenceScanQueue := None\<rparr>"

function searchLoop :: "heapAllocation list \<Rightarrow> uintptr \<Rightarrow> nat \<Rightarrow> nat \<Rightarrow> nat option" where
  "searchLoop arr addr low high =
     (if low < high then
        (let mid = low + (high - low) div 2 in
         if addr < start (arr ! mid) then searchLoop arr addr low mid
         else if addr > end' (arr ! mid) then searchLoop arr addr (mid + 1) high
         else Some mid)
      else None)"
  by pat_completeness auto
termination
  by (relation "measure (\<lambda>(arr, addr, low, high). high - low)") auto

declare searchLoop.simps [simp del]

definition searchAllocations :: "gc_state \<Rightarrow> uintptr \<Rightarrow> nat option" where
  "searchAllocations s addr = searchLoop (allocations s) addr 0 (length (allocations s))"

section \<open>Marking\<close>

text \<open>\<open>unsafe.Sizeof(heapAllocation{})\<close>: two words, a flag padded to a word, a pointer.\<close>

definition heapAllocationSize :: uintptr where
  "heapAllocationSize = 16"

text \<open>
  A \<open>*heapAllocation\<close> is held as the index of the slot it points to, and \<open>nil\<close> as
  \<open>None\<close>.  The value of the pointer \<open>&allocations[i]\<close> is the address of slot \<open>i\<close> of
  the registry buffer; it compares equal to \<open>nil\<close> when that address is 0, which is the
  case for slot 0 of a buffer whose pointer is 0.
\<close>

definition slotPtr :: "gc_state \<Rightarrow> nat \<Rightarrow> uintptr" where
  "slotPtr s i = allocPtr s + of_nat i * heapAllocationSize"

text \<open>
  \<open>mark\<close>.  The test \<open>curAlloc != nil\<close> fails when the search finds nothing and when the
  slot it returns lies at address 0.
\<close>

definition mark :: "uintptr \<Rightarrow> gc_state \<Rightarrow> bool \<times> gc_state" where
  "mark addr s =
     (if length (allocations s) = 0 then (False, s)
      else if addr < start (allocations s ! 0)
              \<or> addr > end' (allocations s ! (length (allocations s) - 1)) then (False, s)
      else (case searchAllocations s addr of
              Some i \<Rightarrow>
                if slotPtr s i \<noteq> 0 \<and> \<not> marked (allocations s ! i) then
                  (True,
                   s\<lparr>allocations :=
                       (allocations s)[i := (allocations s ! i)
                          \<lparr>marked := True, next' := referenceScanQueue s\<rparr>],
                     referenceScanQueue := Some i\<rparr>)
                else (False, s)
            | None \<Rightarrow> (False, s)))"

text \<open>
  The loop of \<open>scan\<close>; pointer size and pointer alignment are both 4.  The test
  \<open>addr + 4 \<le> end\<close> is computed on 32-bit words, so the loop need not end.
\<close>

partial_function (option) scan_loop ::
  "world \<Rightarrow> uintptr \<Rightarrow> uintptr \<Rightarrow> gc_state \<Rightarrow> gc_state option" where
  "scan_loop w addr e s =
     (if addr + 4 \<le> e then scan_loop w (addr + 4) e (snd (mark (mem w addr) s)) else Some s)"

declare scan_loop.simps [code]

definition scan :: "world \<Rightarrow> uintptr \<Rightarrow> uintptr \<Rightarrow> gc_state \<Rightarrow> gc_state option" where
  "scan w start0 end0 s =
     (let alignment = 4;
          start1 = (start0 + alignment - 1) AND NOT (alignment - 1)
      in case scan_loop w start1 end0 s of
           None \<Rightarrow> None
         | Some s1 \<Rightarrow>
             Some (if end0 \<ge> start1 + 4 then snd (mark (mem w (end0 - 4)) s1) else s1))"

definition markRoots :: "world \<Rightarrow> uintptr \<Rightarrow> uintptr \<Rightarrow> gc_state \<Rightarrow> gc_state option" where
  "markRoots w start0 end0 s = scan w start0 end0 s"

fun markRanges :: "world \<Rightarrow> (uintptr \<times> uintptr) list \<Rightarrow> gc_state \<Rightarrow> gc_state option" where
  "markRanges w [] s = Some s"
| "markRanges w ((lo, hi) # rs) s =
     (case markRoots w lo hi s of None \<Rightarrow> None | Some s' \<Rightarrow> markRanges w rs s')"

text \<open>
  Modelled from the spec: \<open>markStack\<close> and \<open>findGlobals\<close> belong to the surrounding
  runtime and are not part of the collector's files.  The first "calls back into
  markRoots(lo, hi) with the stack extent", the second "calls back once per global
  range"; the ranges are those of the world.
\<close>

definition markStack :: "world \<Rightarrow> gc_state \<Rightarrow> gc_state option" where
  "markStack w s = markRanges w (stackRanges w) s"

definition findGlobals :: "world \<Rightarrow> gc_state \<Rightarrow> gc_state option" where
  "findGlobals w s = markRanges w (globalRanges w) s"

text \<open>
  \<open>finishMarking\<close> pops the head of the scan queue and scans the allocation it points
  to, until the queue is empty.  The queue and the links are written by \<open>prepareGC\<close>,
  which stores \<open>nil\<close>, and by \<open>mark\<close>, which stores pointers to slots that are not at
  address 0.
\<close>

partial_function (option) finishMarking :: "world \<Rightarrow> gc_state \<Rightarrow> gc_state option" where
  "finishMarking w s =
     (case referenceScanQueue s of
        None \<Rightarrow> Some s
      | Some i \<Rightarrow>
          (case scan w (start (allocations s ! i)) (end' (allocations s ! i))
                  (s\<lparr>referenceScanQueue := next' (allocations s ! i)\<rparr>) of
             None \<Rightarrow> None
           | Some s' \<Rightarrow> finishMarking w s'))"

declare finishMarking.simps [code]

section \<open>The collection cycle\<close>

definition GC :: "world \<Rightarrow> gc_state \<Rightarrow> unit step" where
  "GC w s0 =
     (let s = emit CallGC s0 in
      if gcInProgress s then Abort GcRunningPanic s
      else
        (let s1 = s\<lparr>gcInProgress := True\<rparr> in
         if length (allocations s1) = 0 then Ok () (s1\<lparr>gcInProgress := False\<rparr>)
         else
           (case markStack w (prepareGC s1) of
              None \<Rightarrow> Diverge
            | Some s2 \<Rightarrow>
                (case findGlobals w s2 of
                   None \<Rightarrow> Diverge
                 | Some s3 \<Rightarrow>
                     (case finishMarking w s3 of
                        None \<Rightarrow> Diverge
                      | Some s4 \<Rightarrow> Ok () ((sweep s4)\<lparr>gcInProgress := False\<rparr>))))))"

section \<open>Heap growth\<close>

definition needGC :: "uintptr \<Rightarrow> gc_state \<Rightarrow> bool" where
  "needGC sz s = (gcTotalAlloc s + ucast sz > ucast (heapUsageLimit s))"

text \<open>
  The loop of \<open>adjustHeapUsageLimit\<close> shifts the limit left while it is not zero and
  \<open>uintptr(gcTotalAlloc) + size\<close> exceeds it.  It ends because every shift leaves
  fewer shifts before the word is zero; \<open>shiftsLeft\<close> counts them.
\<close>

definition shiftsLeft :: "uintptr \<Rightarrow> nat" where
  "shiftsLeft l = card {n. n < 32 \<and> push_bit n l \<noteq> 0}"

function adjustLoop :: "uint64 \<Rightarrow> uintptr \<Rightarrow> uintptr \<Rightarrow> uintptr" where
  "adjustLoop tot sz limit =
     (if limit \<noteq> 0 \<and> ucast tot + sz > limit then adjustLoop tot sz (push_bit 1 limit)
      else limit)"
  by pat_completeness auto
termination
proof (relation "measure (\<lambda>(tot, sz, limit). shiftsLeft limit)", goal_cases)
  case 1
  show ?case by simp
next
  case (2 tot sz l)
  let ?A = "{n. n < 32 \<and> push_bit n l \<noteq> 0}"
  let ?B = "{n. n < 32 \<and> push_bit n (push_bit 1 l) \<noteq> 0}"
  from 2 have nz: "l \<noteq> 0" by simp
  have fin: "finite ?A" by simp
  have p32: "push_bit 32 l = 0" by (rule bit_word_eqI) (simp add: bit_push_bit_iff)
  have step: "push_bit n (push_bit 1 l) = push_bit (Suc n) l" for n
    by (simp add: push_bit_push_bit)
  have sub: "Suc ` ?B \<subseteq> ?A - {0}"
  proof
    fix x assume "x \<in> Suc ` ?B"
    then obtain n where n: "x = Suc n" "n < 32" "push_bit n (push_bit 1 l) \<noteq> 0"
      by (elim imageE CollectE conjE)
    from n(3) have nz': "push_bit (Suc n) l \<noteq> 0" unfolding step .
    have "Suc n \<noteq> 32"
    proof
      assume "Suc n = 32"
      with nz' p32 show False by simp
    qed
    with n(2) have "Suc n < 32" by arith
    with nz' n(1) show "x \<in> ?A - {0}" by simp
  qed
  have "card ?B = card (Suc ` ?B)" by (simp add: card_image)
  also have "\<dots> \<le> card (?A - {0})" using sub fin by (intro card_mono) auto
  also have "\<dots> < card ?A"
  proof (rule psubset_card_mono [OF fin])
    have "0 \<in> ?A" using nz by simp
    then show "?A - {0} \<subset> ?A" by blast
  qed
  finally show ?case by (simp add: shiftsLeft_def)
qed


declare adjustLoop.simps [simp del]

definition adjustHeapUsageLimit :: "uintptr \<Rightarrow> gc_state \<Rightarrow> gc_state" where
  "adjustHeapUsageLimit sz s =
     (let limit = adjustLoop (gcTotalAlloc s) sz (heapUsageLimit s) in
      emit GrowLimit (s\<lparr>heapUsageLimit := (if limit = 0 then NOT 0 else limit)\<rparr>))"

definition expandHeap :: "bool \<Rightarrow> uintptr \<Rightarrow> gc_state \<Rightarrow> unit step" where
  "expandHeap gcRan sz s = Ok () (if gcRan then adjustHeapUsageLimit sz s else s)"

definition fail :: "bool \<Rightarrow> uintptr \<Rightarrow> gc_state \<Rightarrow> unit step" where
  "fail gcRan sz s = (if gcRan then Abort GcAllocPanic s else Ok () s)"

text \<open>\<open>tryGC\<close>; the value it returns here is the flag \<open>*gcRan\<close> after the call.\<close>

definition tryGC ::
  "world \<Rightarrow> bool \<Rightarrow> uintptr \<Rightarrow> (bool \<Rightarrow> uintptr \<Rightarrow> gc_state \<Rightarrow> unit step) \<Rightarrow> gc_state
     \<Rightarrow> bool step" where
  "tryGC w gcRan sz fn s =
     (if gcRan then
        (case fn True sz s of
           Ok u s' \<Rightarrow> Ok gcRan s' | Abort p s' \<Rightarrow> Abort p s' | Diverge \<Rightarrow> Diverge)
      else
        (case GC w s of
           Ok u s' \<Rightarrow> Ok True s' | Abort p s' \<Rightarrow> Abort p s' | Diverge \<Rightarrow> Diverge))"

section \<open>The allocation list\<close>

definition double :: "nat \<Rightarrow> nat" where
  "double v = (if v = 0 then 1 else 2 * v)"

text \<open>
  \<open>expandAllocationsIfNeeded\<close>.  The copy of the slice header is taken first; the new
  header gets the pointer returned by the host, the length of that copy and the doubled
  capacity, and \<open>copyAllocations\<close> fills it with as many slots of the old backing
  array as the copy's length says.
\<close>

definition expandAllocationsIfNeeded :: "world \<Rightarrow> bool \<Rightarrow> gc_state \<Rightarrow> bool step" where
  "expandAllocationsIfNeeded w gcRan s =
     (let hdrPtr = allocPtr s;
          hdrLen = length (allocations s);
          hdrCap = length (allocations s) + length (allocSpare s)
      in if hdrLen = hdrCap then
           (let doubledCap = double hdrCap;
                (ptr, s1) = extalloc w (of_nat doubledCap * heapAllocationSize) s
            in case (if ptr = 0 then tryGC w gcRan 0 fail s1 else Ok gcRan s1) of
                 Abort p s' \<Rightarrow> Abort p s'
               | Diverge \<Rightarrow> Diverge
               | Ok gcRan' s2 \<Rightarrow>
                   (let s3 = s2\<lparr>allocPtr := ptr,
                                 allocations := take hdrLen (allocations s2 @ allocSpare s2),
                                 allocSpare := replicate (doubledCap - hdrLen) (junk w)\<rparr>
                    in Ok gcRan' (if hdrCap \<noteq> 0 then free hdrPtr s3 else s3)))
         else Ok gcRan s)"

definition newHeapAllocation :: "uintptr \<Rightarrow> uintptr \<Rightarrow> heapAllocation" where
  "newHeapAllocation ptr sz = \<lparr>start = ptr, end' = ptr + sz, marked = False, next' = None\<rparr>"

text \<open>
  \<open>appendAllocations\<close> writes the slot behind the last element and increments the
  length; it is called after \<open>expandAllocationsIfNeeded\<close>, when the length is below the
  capacity.
\<close>

definition appendAllocations :: "heapAllocation \<Rightarrow> gc_state \<Rightarrow> gc_state" where
  "appendAllocations entry s =
     s\<lparr>allocations := allocations s @ [entry], allocSpare := tl (allocSpare s)\<rparr>"

section \<open>alloc\<close>

text \<open>
  The result of a call of \<open>alloc\<close>: the pointer, a panic, a collection that never
  returns, or, for the loop cut after a number of iterations, the flag and the state
  with which its next iteration starts.
\<close>

datatype alloc_result =
    Returned uintptr gc_state
  | Panicked panic gc_state
  | Hung
  | Unfinished bool gc_state

fun alloc_loop :: "world \<Rightarrow> nat \<Rightarrow> uintptr \<Rightarrow> bool \<Rightarrow> gc_state \<Rightarrow> alloc_result" where
  "alloc_loop w 0 sz gcRan s = Unfinished gcRan s"
| "alloc_loop w (Suc k) sz gcRan s =
     (if needGC sz s then
        (case tryGC w gcRan sz expandHeap s of
           Abort p s' \<Rightarrow> Panicked p s'
         | Diverge \<Rightarrow> Hung
         | Ok gcRan' s' \<Rightarrow> alloc_loop w k sz gcRan' s')
      else
        (case expandAllocationsIfNeeded w gcRan s of
           Abort p s' \<Rightarrow> Panicked p s'
         | Diverge \<Rightarrow> Hung
         | Ok gcRan1 s1 \<Rightarrow>
             (let (ptr, s2) = extalloc w sz s1 in
              if ptr = 0 then
                (case tryGC w gcRan1 sz fail s2 of
                   Abort p s' \<Rightarrow> Panicked p s'
                 | Diverge \<Rightarrow> Hung
                 | Ok gcRan2 s3 \<Rightarrow> alloc_loop w k sz gcRan2 s3)
              else
                (let s3 = appendAllocations (newHeapAllocation ptr sz) s2;
                     s4 = s3\<lparr>gcTotalAlloc := gcTotalAlloc s3 + ucast sz\<rparr>
                 in Returned ptr (emit (Memzero ptr sz) s4)))))"

text \<open>\<open>alloc\<close> with at most \<open>k\<close> iterations of its loop.\<close>

definition alloc :: "world \<Rightarrow> nat \<Rightarrow> uintptr \<Rightarrow> gc_state \<Rightarrow> alloc_result" where
  "alloc w k sz s =
     (if gcInProgress s then Panicked GcRunningPanic s
      else
        (let s1 = s\<lparr>gcMallocs := gcMallocs s + 1\<rparr> in
         if sz = 0 then Returned (zeroSizedAlloc w) s1
         else alloc_loop w k (sz + alignedPtrSize w) False s1))"

section \<open>Statistics\<close>



text \<open>
  Modelled from the spec: the constant \<open>wasmPageSize\<close> is declared with the target's
  architecture, outside the collector's files; the spec names it
  \<open>wasm_page_size\<close>, the 64 KiB page of WebAssembly.
\<close>

definition wasmPageSize :: uintptr where
  "wasmPageSize = 65536"

text \<open>The variables as the program starts; the allocation list is the nil slice.\<close>

definition bootState :: gc_state where
  "bootState =
     \<lparr>gcInProgress = False, gcMallocs = 0, gcFrees = 0, gcTotalAlloc = 0,
      heapUsageLimit = 2 * wasmPageSize * 4,
      allocations = [], allocSpare = [], allocPtr = 0, referenceScanQueue = None,
      extallocCalls = 0, trace = []\<rparr>"

section \<open>The leaking variant (gc\_extalloc\_leaking.go)\<close>

record leak_state =
  lkMallocs :: uint64
  lkTotalAlloc :: uint64
  lkExtallocCalls :: nat
  lkTrace :: "event list"

datatype leak_result = LeakReturned uintptr leak_state | LeakPanicked panic leak_state

definition alloc_leaking :: "world \<Rightarrow> uintptr \<Rightarrow> leak_state \<Rightarrow> leak_result" where
  "alloc_leaking w sz0 l =
     (if sz0 = 0 then LeakReturned (zeroSizedAlloc w) l
      else
        (let sz = sz0 + alignedPtrSize w in
         if lkTotalAlloc l + ucast sz < lkTotalAlloc l then LeakPanicked AbortTrap l
         else
           (let pointer = extallocRet w (lkExtallocCalls l) sz;
                l1 = l\<lparr>lkExtallocCalls := lkExtallocCalls l + 1,
                        lkTrace := lkTrace l @ [ExtAlloc sz]\<rparr>
            in if pointer = 0 then LeakPanicked GcAllocPanic l1
               else LeakReturned pointer
                      (l1\<lparr>lkTrace := lkTrace l1 @ [Memzero pointer sz],
                          lkTotalAlloc := lkTotalAlloc l1 + ucast sz\<rparr>))))"



section \<open>Example states and worlds\<close>

definition sweepExample :: gc_state where
  "sweepExample = bootState
     \<lparr>allocations :=
        [\<lparr>start = 16, end' = 36, marked = True, next' = None\<rparr>,
         \<lparr>start = 48, end' = 60, marked = False, next' = None\<rparr>,
         \<lparr>start = 64, end' = 76, marked = True, next' = Some 0\<rparr>],
      gcTotalAlloc := 44\<rparr>"

definition exampleWorld :: world where
  "exampleWorld =
     \<lparr>mem = (\<lambda>a. 0), stackRanges = [], globalRanges = [],
      extallocRet = (\<lambda>k sz. 4096 + 256 * of_nat k),
      zeroSizedAlloc = 1024, alignedPtrSize = 4,
      junk = \<lparr>start = 0, end' = 0, marked = False, next' = None\<rparr>,
      heapStart = 2048, heapEnd = 131072\<rparr>"

definition refusingWorld :: world where
  "refusingWorld = exampleWorld\<lparr>extallocRet := (\<lambda>k sz. if k = 0 then 0 else 4096)\<rparr>"


section \<open>Auxiliary notions for the proofs\<close>

text \<open>The slots of an array from index \<open>i\<close> up to, not including, index \<open>n\<close>.\<close>

definition slots :: "heapAllocation list \<Rightarrow> nat \<Rightarrow> nat \<Rightarrow> heapAllocation list" where
  "slots arr i n = map ((!) arr) [i..<n]"

text \<open>Two states that differ at most in the records of the registry and the scan queue.\<close>

definition sameOutside :: "gc_state \<Rightarrow> gc_state \<Rightarrow> bool" where
  "sameOutside s s' \<longleftrightarrow>
     s' = s\<lparr>allocations := allocations s', referenceScanQueue := referenceScanQueue s'\<rparr>"

text \<open>
  The order of collections and growth of the limit in a list of events: \<open>g\<close> tells
  whether a collection has run before the list.  A collection must be the first one, and
  the limit may only grow after a collection.
\<close>

fun gcPolicy :: "bool \<Rightarrow> event list \<Rightarrow> bool" where
  "gcPolicy g [] = True"
| "gcPolicy g (CallGC # es) = (\<not> g \<and> gcPolicy True es)"
| "gcPolicy g (GrowLimit # es) = (g \<and> gcPolicy g es)"
| "gcPolicy g (e # es) = gcPolicy g es"

text \<open>The state in which a call of \<open>alloc\<close> ends, if the collection it runs returns.\<close>

fun allocState :: "alloc_result \<Rightarrow> gc_state option" where
  "allocState (Returned p s) = Some s"
| "allocState (Panicked p s) = Some s"
| "allocState Hung = None"
| "allocState (Unfinished g s) = Some s"

text \<open>
  The values that \<open>heapUsageLimit\<close> takes: a power of two or the word of all ones.
  \<open>grown l l'\<close>: from such a value \<open>l\<close> the limit has moved to such a value \<open>l'\<close> that
  is not below it, and is \<open>l\<close> shifted left some number of times or all ones.
\<close>

definition limitOk :: "uintptr \<Rightarrow> bool" where
  "limitOk l \<longleftrightarrow> l = NOT 0 \<or> (\<exists>k<32. l = 2 ^ k)"

definition grown :: "uintptr \<Rightarrow> uintptr \<Rightarrow> bool" where
  "grown l l' \<longleftrightarrow>
     (limitOk l \<longrightarrow> limitOk l' \<and> l \<le> l' \<and> (l' = NOT 0 \<or> (\<exists>j. l' = push_bit j l)))"

text \<open>
  A piece of a run of \<open>alloc\<close> that takes flag \<open>g\<close> and state \<open>s\<close> to \<open>g'\<close> and
  \<open>s'\<close>: it only adds events to the trace, the events follow the policy, the flag is
  set exactly if a collection ran, the limit changes only with a \<open>GrowLimit\<close>, and
  it has grown.
\<close>

definition follows :: "bool \<Rightarrow> gc_state \<Rightarrow> bool \<Rightarrow> gc_state \<Rightarrow> bool" where
  "follows g s g' s' \<longleftrightarrow>
     (\<exists>evs. trace s' = trace s @ evs \<and> gcPolicy g evs \<and> g' = (g \<or> CallGC \<in> set evs) \<and>
            (GrowLimit \<notin> set evs \<longrightarrow> heapUsageLimit s' = heapUsageLimit s)) \<and>
     grown (heapUsageLimit s) (heapUsageLimit s')"

section \<open>Sequences of operations\<close>









section \<open>Notions for the registry\<close>

text \<open>
  An address lies in a record when it lies in the inclusive interval from \<open>start\<close> to
  \<open>end\<close>, the test of \<open>searchAllocations\<close>.  \<open>sortedByStart\<close> and
  \<open>disjointRanges\<close> compare adjacent records: starts ascending, and the end of a
  record not above the start of the next (the ranges, which exclude the end, do not
  overlap; the inclusive intervals of two records that touch share one address).
  \<open>startBeforeEnd\<close> says that no record ends below its start, and \<open>noNilSlot\<close> that
  no slot of the registry lies at address 0.
\<close>

definition inAllocation :: "heapAllocation \<Rightarrow> uintptr \<Rightarrow> bool" where
  "inAllocation r addr \<longleftrightarrow> start r \<le> addr \<and> addr \<le> end' r"

fun sortedByStart :: "heapAllocation list \<Rightarrow> bool" where
  "sortedByStart [] = True"
| "sortedByStart [r] = True"
| "sortedByStart (r # r' # rs) = (start r \<le> start r' \<and> sortedByStart (r' # rs))"

fun disjointRanges :: "heapAllocation list \<Rightarrow> bool" where
  "disjointRanges [] = True"
| "disjointRanges [r] = True"
| "disjointRanges (r # r' # rs) = (end' r \<le> start r' \<and> disjointRanges (r' # rs))"

definition startBeforeEnd :: "heapAllocation list \<Rightarrow> bool" where
  "startBeforeEnd rs \<longleftrightarrow> list_all (\<lambda>r. start r \<le> end' r) rs"

definition noNilSlot :: "gc_state \<Rightarrow> bool" where
  "noNilSlot s \<longleftrightarrow> list_all (\<lambda>i. slotPtr s i \<noteq> 0) [0..<length (allocations s)]"

text \<open>What \<open>mark\<close> does to the record at index \<open>i\<close> when it marks it.\<close>

definition pushMarked :: "nat \<Rightarrow> gc_state \<Rightarrow> gc_state" where
  "pushMarked i s =
     s\<lparr>allocations :=
         (allocations s)[i := (allocations s ! i)\<lparr>marked := True, next' := referenceScanQueue s\<rparr>],
       referenceScanQueue := Some i\<rparr>"

text \<open>
  Two registries in a buffer at address 8192, each with two records that touch at
  address 4108: in the first the upper record is marked, in the second none is.  The
  third is the second in a buffer at address 0.
\<close>

definition abuttingState :: gc_state where
  "abuttingState = bootState
     \<lparr>allocations :=
        [\<lparr>start = 4096, end' = 4108, marked = False, next' = None\<rparr>,
         \<lparr>start = 4108, end' = 4120, marked = True, next' = None\<rparr>],
      allocPtr := 8192, referenceScanQueue := Some 1, gcTotalAlloc := 24\<rparr>"

definition touchingState :: gc_state where
  "touchingState = bootState
     \<lparr>allocations :=
        [\<lparr>start = 4096, end' = 4108, marked = False, next' = None\<rparr>,
         \<lparr>start = 4108, end' = 4120, marked = False, next' = None\<rparr>],
      allocPtr := 8192, gcTotalAlloc := 24\<rparr>"

definition nilBufferState :: gc_state where
  "nilBufferState = touchingState\<lparr>allocPtr := 0\<rparr>"

section \<open>Notions for the heap sort\<close>

text \<open>Node \<open>j\<close> of the heap in the first \<open>n\<close> slots is not below its children.\<close>

definition dominates :: "heapAllocation list \<Rightarrow> nat \<Rightarrow> nat \<Rightarrow> bool" where
  "dominates a n j \<longleftrightarrow>
     (2 * j + 1 < n \<longrightarrow> start (a ! (2 * j + 1)) \<le> start (a ! j)) \<and>
     (2 * j + 2 < n \<longrightarrow> start (a ! (2 * j + 2)) \<le> start (a ! j))"

text \<open>
  \<open>heapFrom a n lo\<close>: every node from \<open>lo\<close> on is not below its children.
  \<open>heapExcept a n lo i\<close>: the same but for node \<open>i\<close>, whose children are not above its
  parent.
\<close>

definition heapFrom :: "heapAllocation list \<Rightarrow> nat \<Rightarrow> nat \<Rightarrow> bool" where
  "heapFrom a n lo \<longleftrightarrow> (\<forall>j\<ge>lo. dominates a n j)"

definition heapExcept :: "heapAllocation list \<Rightarrow> nat \<Rightarrow> nat \<Rightarrow> nat \<Rightarrow> bool" where
  "heapExcept a n lo i \<longleftrightarrow>
     (\<forall>j\<ge>lo. j \<noteq> i \<longrightarrow> dominates a n j) \<and>
     (\<forall>p\<ge>lo. i = 2 * p + 1 \<or> i = 2 * p + 2 \<longrightarrow>
        (2 * i + 1 < n \<longrightarrow> start (a ! (2 * i + 1)) \<le> start (a ! p)) \<and>
        (2 * i + 2 < n \<longrightarrow> start (a ! (2 * i + 2)) \<le> start (a ! p)))"

text \<open>The index that \<open>heapify\<close> computes as \<open>max\<close>.\<close>

definition largest :: "heapAllocation list \<Rightarrow> nat \<Rightarrow> nat \<Rightarrow> nat" where
  "largest a n i =
     (let left = 2 * i + 1;
          right = 2 * i + 2;
          max1 = (if left < n \<and> start (a ! left) > start (a ! i) then left else i)
      in if right < n \<and> start (a ! right) > start (a ! max1) then right else max1)"

text \<open>A registry out of order, with flags and links left from an earlier cycle.\<close>

definition unsortedState :: gc_state where
  "unsortedState = bootState
     \<lparr>allocations :=
        [\<lparr>start = 4352, end' = 4364, marked = True, next' = Some 2\<rparr>,
         \<lparr>start = 4096, end' = 4112, marked = False, next' = None\<rparr>,
         \<lparr>start = 4608, end' = 4620, marked = True, next' = None\<rparr>,
         \<lparr>start = 4200, end' = 4220, marked = False, next' = None\<rparr>],
      allocPtr := 8192, referenceScanQueue := Some 0, gcTotalAlloc := 60\<rparr>"

section \<open>Notions for the scan queue\<close>

text \<open>
  \<open>linked a q is\<close>: following the links \<open>next\<close> from the head \<open>q\<close> visits the slots
  \<open>is\<close> and ends at nil.  The queue of a state is in order (\<open>queueInv\<close>) when these
  slots are distinct and their records are marked.  \<open>endsBounded\<close>: every record ends
  below \<open>0xFFFFFFFC\<close>, the last address at which a pointer-sized word starts.
  \<open>markStep s s'\<close>: \<open>s'\<close> keeps a queue in order, the number of unmarked records plus
  the length of the queue has not grown, and the ends are still bounded.
\<close>

fun linked :: "heapAllocation list \<Rightarrow> nat option \<Rightarrow> nat list \<Rightarrow> bool" where
  "linked a q [] = (q = None)"
| "linked a q (i # is) = (q = Some i \<and> i < length a \<and> linked a (next' (a ! i)) is)"

definition queueInv :: "gc_state \<Rightarrow> nat list \<Rightarrow> bool" where
  "queueInv s is \<longleftrightarrow>
     linked (allocations s) (referenceScanQueue s) is \<and> distinct is \<and>
     (\<forall>i\<in>set is. marked (allocations s ! i))"

definition unmarkedCount :: "gc_state \<Rightarrow> nat" where
  "unmarkedCount s = length (filter (\<lambda>r. \<not> marked r) (allocations s))"

definition endsBounded :: "gc_state \<Rightarrow> bool" where
  "endsBounded s \<longleftrightarrow> (\<forall>r\<in>set (allocations s). end' r < 0xFFFFFFFC)"

definition markStep :: "gc_state \<Rightarrow> gc_state \<Rightarrow> bool" where
  "markStep s s' \<longleftrightarrow>
     (\<forall>is. queueInv s is \<longrightarrow>
        (\<exists>is'. queueInv s' is' \<and> unmarkedCount s' + length is' \<le> unmarkedCount s + length is)) \<and>
     (endsBounded s \<longrightarrow> endsBounded s')"

text \<open>
  A record at the top of the address space that a word of the stack points to, before
  and after the roots are marked; and a record that points to another one.
\<close>

definition topWorld :: world where
  "topWorld = exampleWorld
     \<lparr>mem := (\<lambda>a. if a = 256 then 0xFFFFFFF0 else 0), stackRanges := [(256, 260)]\<rparr>"

definition topState :: gc_state where
  "topState = bootState
     \<lparr>allocations := [\<lparr>start = 0xFFFFFFF0, end' = 0xFFFFFFFF, marked = False, next' = None\<rparr>],
      allocPtr := 8192, gcTotalAlloc := 15\<rparr>"

definition topRooted :: gc_state where
  "topRooted = bootState
     \<lparr>allocations := [\<lparr>start = 0xFFFFFFF0, end' = 0xFFFFFFFF, marked = True, next' = None\<rparr>],
      allocPtr := 8192, referenceScanQueue := Some 0, gcTotalAlloc := 15\<rparr>"

definition chainWorld :: world where
  "chainWorld = exampleWorld
     \<lparr>mem := (\<lambda>a. if a = 256 then 4096 else if a = 4096 then 4112 else 0),
      stackRanges := [(256, 260)]\<rparr>"

definition chainState :: gc_state where
  "chainState = bootState
     \<lparr>allocations :=
        [\<lparr>start = 4096, end' = 4104, marked = True, next' = Some 1\<rparr>,
         \<lparr>start = 4112, end' = 4120, marked = False, next' = None\<rparr>],
      allocPtr := 8192, gcTotalAlloc := 16\<rparr>"

definition chainRooted :: gc_state where
  "chainRooted = bootState
     \<lparr>allocations :=
        [\<lparr>start = 4096, end' = 4104, marked = True, next' = None\<rparr>,
         \<lparr>start = 4112, end' = 4120, marked = False, next' = None\<rparr>],
      allocPtr := 8192, referenceScanQueue := Some 0, gcTotalAlloc := 16\<rparr>"

definition chainDone :: gc_state where
  "chainDone = bootState
     \<lparr>allocations :=
        [\<lparr>start = 4096, end' = 4104, marked = True, next' = None\<rparr>,
         \<lparr>start = 4112, end' = 4120, marked = True, next' = None\<rparr>],
      allocPtr := 8192, referenceScanQueue := None, gcTotalAlloc := 16\<rparr>"

section \<open>Notions for comparing the two variants\<close>







section \<open>Properties of sweep\<close>

lemma emit_simps [simp]:
  "trace (emit e s) = trace s @ [e]"
  "allocations (emit e s) = allocations s"
  "gcTotalAlloc (emit e s) = gcTotalAlloc s"
  "gcFrees (emit e s) = gcFrees s"
  by (simp_all add: emit_def)

lemma free_simps [simp]:
  "trace (free p s) = trace s @ [ExtFree p]"
  "allocations (free p s) = allocations s"
  "gcTotalAlloc (free p s) = gcTotalAlloc s"
  "gcFrees (free p s) = gcFrees s + 1"
  by (simp_all add: free_def)

lemma slots_step: "i < n \<Longrightarrow> slots arr i n = arr ! i # slots arr (Suc i) n"
  by (simp add: slots_def upt_conv_Cons)

lemma slots_done: "\<not> i < n \<Longrightarrow> slots arr i n = []"
  by (simp add: slots_def)

lemma slots_update: "j \<le> i \<Longrightarrow> slots (arr[j := x]) (Suc i) n = slots arr (Suc i) n"
  by (simp add: slots_def)

lemma slots_all: "slots arr 0 (length arr) = arr"
  by (simp add: slots_def map_nth)

lemma sweep_loop_spec:
  "sweep_loop n i j s = (j', s') \<Longrightarrow> j \<le> i \<Longrightarrow> n \<le> length (allocations s) \<Longrightarrow>
     j' = j + length (filter marked (slots (allocations s) i n)) \<and>
     take (j + length (filter marked (slots (allocations s) i n))) (allocations s') =
       take j (allocations s) @ filter marked (slots (allocations s) i n) \<and>
     length (allocations s') = length (allocations s) \<and>
     trace s' = trace s @ map (\<lambda>r. ExtFree (start r)) (filter (\<lambda>r. \<not> marked r) (slots (allocations s) i n)) \<and>
     gcTotalAlloc s' = gcTotalAlloc s + sum_list (map allocSize (filter marked (slots (allocations s) i n))) \<and>
     gcFrees s' = gcFrees s + of_nat (length (filter (\<lambda>r. \<not> marked r) (slots (allocations s) i n)))"
proof (induction n i j s arbitrary: j' s' rule: sweep_loop.induct)
  case (1 n i j s)
  show ?case
  proof (cases "i < n")
    case False
    with "1.prems" show ?thesis
      by (simp add: sweep_loop.simps [of n i j s] slots_done)
  next
    case True
    let ?cur = "allocations s ! i"
    show ?thesis
    proof (cases "marked ?cur")
      case False
      with True "1.prems" have rec: "sweep_loop n (i + 1) j (free (start ?cur) s) = (j', s')"
        by (simp add: sweep_loop.simps [of n i j s] Let_def)
      from "1.IH"(1) [OF True refl False rec] "1.prems" True False
      show ?thesis by (simp add: slots_step)
    next
      case mk: True
      let ?s1 = "s\<lparr>allocations := (allocations s)[j := ?cur],
                   gcTotalAlloc := gcTotalAlloc s + ucast (end' ?cur - start ?cur)\<rparr>"
      from True mk "1.prems" have rec: "sweep_loop n (i + 1) (j + 1) ?s1 = (j', s')"
        by (simp add: sweep_loop.simps [of n i j s] Let_def)
      have jlt: "j < length (allocations s)" using True "1.prems" by simp
      from "1.IH"(2) [OF True refl _ rec] "1.prems" True mk jlt
      show ?thesis
        by (simp add: slots_step slots_update take_Suc_conv_app_nth allocSize_def add.assoc)
    qed
  qed
qed



lemma sweep_result:
  "allocations (sweep s) = filter marked (allocations s)"
  "trace (sweep s) =
     trace s @ map (\<lambda>r. ExtFree (start r)) (filter (\<lambda>r. \<not> marked r) (allocations s))"
  "gcTotalAlloc (sweep s) = sum_list (map allocSize (filter marked (allocations s)))"
  "gcFrees (sweep s) =
     gcFrees s + of_nat (length (filter (\<lambda>r. \<not> marked r) (allocations s)))"
proof -
  obtain j s' where run: "sweep_loop (length (allocations s)) 0 0 (s\<lparr>gcTotalAlloc := 0\<rparr>) = (j, s')"
    by (cases "sweep_loop (length (allocations s)) 0 0 (s\<lparr>gcTotalAlloc := 0\<rparr>)")
  from sweep_loop_spec [OF run]
  have a: "j = length (filter marked (allocations s))"
    and b: "take j (allocations s') = filter marked (allocations s)"
    and c: "trace s' = trace s @ map (\<lambda>r. ExtFree (start r)) (filter (\<lambda>r. \<not> marked r) (allocations s))"
    and d: "gcTotalAlloc s' = sum_list (map allocSize (filter marked (allocations s)))"
    and e: "gcFrees s' = gcFrees s + of_nat (length (filter (\<lambda>r. \<not> marked r) (allocations s)))"
    by (simp_all add: slots_all)
  show "allocations (sweep s) = filter marked (allocations s)"
    using b by (simp add: sweep_def run)
  show "trace (sweep s) =
     trace s @ map (\<lambda>r. ExtFree (start r)) (filter (\<lambda>r. \<not> marked r) (allocations s))"
    using c by (simp add: sweep_def run)
  show "gcTotalAlloc (sweep s) = sum_list (map allocSize (filter marked (allocations s)))"
    using d by (simp add: sweep_def run)
  show "gcFrees (sweep s) =
     gcFrees s + of_nat (length (filter (\<lambda>r. \<not> marked r) (allocations s)))"
    using e by (simp add: sweep_def run)
qed

lemma unat_allocSize: "unat (allocSize r) = unat (end' r - start r)"
proof -
  have "unat (end' r - start r) < 2 ^ 32"
    using unsigned_less [of "end' r - start r", where 'a = nat] by simp
  then have "take_bit 64 (unat (end' r - start r)) = unat (end' r - start r)"
    by (simp add: take_bit_nat_eq_self)
  then show ?thesis
    by (simp add: allocSize_def unsigned_ucast_eq)
qed

lemma sizes_bound: "(\<Sum>r\<leftarrow>xs. unat (end' r - start r)) \<le> length xs * 2 ^ 32"
proof (induction xs)
  case Nil
  show ?case by simp
next
  case (Cons r xs)
  have "unat (end' r - start r) < 2 ^ 32"
    using unsigned_less [of "end' r - start r", where 'a = nat] by simp
  with Cons show ?case by simp
qed

lemma unat_sum_allocSize:
  "unat (sum_list (map allocSize xs)) = (\<Sum>r\<leftarrow>xs. unat (end' r - start r)) mod 2 ^ 64"
proof (induction xs)
  case Nil
  show ?case by simp
next
  case (Cons r xs)
  then show ?case
    by (simp add: unat_word_ariths unat_allocSize mod_add_right_eq)
qed

lemma unat_sum_allocSize_exact:
  assumes "length xs < 2 ^ 32"
  shows "unat (sum_list (map allocSize xs)) = (\<Sum>r\<leftarrow>xs. unat (end' r - start r))"
proof -
  have "(\<Sum>r\<leftarrow>xs. unat (end' r - start r)) \<le> length xs * 2 ^ 32" by (rule sizes_bound)
  also have "\<dots> < 2 ^ 32 * 2 ^ 32" using assms by simp
  finally have "(\<Sum>r\<leftarrow>xs. unat (end' r - start r)) < 2 ^ 64" by simp
  then show ?thesis by (simp add: unat_sum_allocSize)
qed

text \<open>
  C1.  For every state of the registry, \<open>sweep\<close> keeps exactly the marked records, in
  their order, at the front of the list; it calls \<open>extfree\<close> once on the start address
  of every unmarked record and makes no other call; afterwards \<open>gcTotalAlloc\<close> is the
  sum of \<open>end - start\<close> over the records kept (computed on 64-bit words, and equal to
  the sum of the sizes as numbers for every list whose length fits a machine integer),
  and the length of the registry is the number of records kept.
\<close>

theorem sweep_removes_unmarked:
  "allocations (sweep s) = filter marked (allocations s) \<and>
   trace (sweep s) =
     trace s @ map (\<lambda>r. ExtFree (start r)) (filter (\<lambda>r. \<not> marked r) (allocations s)) \<and>
   gcTotalAlloc (sweep s) = sum_list (map allocSize (filter marked (allocations s))) \<and>
   length (allocations (sweep s)) = length (filter marked (allocations s)) \<and>
   (length (allocations s) < 2 ^ 32 \<longrightarrow>
      unat (gcTotalAlloc (sweep s)) =
        (\<Sum>r\<leftarrow>filter marked (allocations s). unat (end' r - start r)))"
proof -
  have le: "length (filter marked (allocations s)) \<le> length (allocations s)" by simp
  have "unat (sum_list (map allocSize (filter marked (allocations s)))) =
        (\<Sum>r\<leftarrow>filter marked (allocations s). unat (end' r - start r))"
    if "length (allocations s) < 2 ^ 32"
  proof (rule unat_sum_allocSize_exact)
    from le that show "length (filter marked (allocations s)) < 2 ^ 32" by (rule le_less_trans)
  qed
  then show ?thesis by (simp add: sweep_result)
qed

theorem sweep_removes_unmarked_witness:
  "length (allocations sweepExample) < 2 ^ 32 \<and>
   allocations (sweep sweepExample) =
     [\<lparr>start = 16, end' = 36, marked = True, next' = None\<rparr>,
      \<lparr>start = 64, end' = 76, marked = True, next' = Some 0\<rparr>] \<and>
   trace (sweep sweepExample) = [ExtFree 48] \<and>
   gcTotalAlloc (sweep sweepExample) = 32 \<and>
   unat (gcTotalAlloc (sweep sweepExample)) = 32"
  using sweep_removes_unmarked [of sweepExample]
  by (simp add: sweepExample_def bootState_def allocSize_def)

section \<open>What marking leaves unchanged\<close>

lemma sameOutside_refl [simp]: "sameOutside s s"
  by (simp add: sameOutside_def)

lemma sameOutside_trans: "sameOutside s t \<Longrightarrow> sameOutside t u \<Longrightarrow> sameOutside s u"
  unfolding sameOutside_def
  by (cases s, cases t, cases u) simp

lemma sameOutside_queue [simp]: "sameOutside s (s\<lparr>referenceScanQueue := q\<rparr>)"
  by (simp add: sameOutside_def)

lemma sameOutside_fields:
  assumes "sameOutside s s'"
  shows "trace s' = trace s" "heapUsageLimit s' = heapUsageLimit s"
    "gcTotalAlloc s' = gcTotalAlloc s" "gcMallocs s' = gcMallocs s" "gcFrees s' = gcFrees s"
    "gcInProgress s' = gcInProgress s" "extallocCalls s' = extallocCalls s"
    "allocSpare s' = allocSpare s" "allocPtr s' = allocPtr s"
  using assms unfolding sameOutside_def by (cases s, cases s', simp)+

lemma mark_sameOutside: "sameOutside s (snd (mark a s))"
  by (simp add: mark_def sameOutside_def split: option.split)

lemma scan_loop_sameOutside:
  assumes "scan_loop w a e s = Some s'"
  shows "sameOutside s s'"
proof (rule scan_loop.raw_induct [where P = "\<lambda>w a e s s'. sameOutside s s'", OF _ assms])
  fix f w a e s s'
  assume IH: "\<And>w a e s y. f w a e s = Some y \<Longrightarrow> sameOutside s y"
    and eq: "(if a + 4 \<le> e then f w (a + 4) e (snd (mark (mem w a) s)) else Some s) = Some s'"
  show "sameOutside s s'"
  proof (cases "a + 4 \<le> e")
    case True
    with eq have "f w (a + 4) e (snd (mark (mem w a) s)) = Some s'" by simp
    from mark_sameOutside IH [OF this] show ?thesis by (rule sameOutside_trans)
  next
    case False
    with eq show ?thesis by simp
  qed
qed

lemma scan_sameOutside:
  assumes "scan w a e s = Some s'"
  shows "sameOutside s s'"
proof -
  from assms obtain s1 where
    s1: "scan_loop w ((a + 4 - 1) AND NOT (4 - 1)) e s = Some s1"
    and s': "s' = (if e \<ge> ((a + 4 - 1) AND NOT (4 - 1)) + 4 then snd (mark (mem w (e - 4)) s1) else s1)"
    by (auto simp: scan_def Let_def split: option.splits)
  from scan_loop_sameOutside [OF s1] have a: "sameOutside s s1" .
  have "sameOutside s1 s'" unfolding s' by (simp add: mark_sameOutside)
  with a show ?thesis by (rule sameOutside_trans)
qed

lemma markRanges_sameOutside: "markRanges w rs s = Some s' \<Longrightarrow> sameOutside s s'"
proof (induction rs arbitrary: s)
  case Nil
  then show ?case by simp
next
  case (Cons r rs)
  obtain lo hi where r: "r = (lo, hi)" by (cases r)
  from Cons.prems obtain s1 where s1: "scan w lo hi s = Some s1" and rest: "markRanges w rs s1 = Some s'"
    by (auto simp: r markRoots_def split: option.splits)
  from scan_sameOutside [OF s1] Cons.IH [OF rest] show ?case by (rule sameOutside_trans)
qed

lemma finishMarking_sameOutside:
  assumes "finishMarking w s = Some s'"
  shows "sameOutside s s'"
proof (rule finishMarking.raw_induct [where P = "\<lambda>w s s'. sameOutside s s'", OF _ assms])
  fix f w s s'
  assume IH: "\<And>w s y. f w s = Some y \<Longrightarrow> sameOutside s y"
    and eq: "(case referenceScanQueue s of None \<Rightarrow> Some s
      | Some i \<Rightarrow>
          case scan w (start (allocations s ! i)) (end' (allocations s ! i))
                (s\<lparr>referenceScanQueue := next' (allocations s ! i)\<rparr>) of
          None \<Rightarrow> None | Some s' \<Rightarrow> f w s') = Some s'"
  show "sameOutside s s'"
  proof (cases "referenceScanQueue s")
    case None
    with eq show ?thesis by simp
  next
    case (Some i)
    with eq obtain s1 where
      s1: "scan w (start (allocations s ! i)) (end' (allocations s ! i))
                (s\<lparr>referenceScanQueue := next' (allocations s ! i)\<rparr>) = Some s1"
      and rest: "f w s1 = Some s'"
      by (auto split: option.splits)
    have "sameOutside s (s\<lparr>referenceScanQueue := next' (allocations s ! i)\<rparr>)" by simp
    from this scan_sameOutside [OF s1] have "sameOutside s s1" by (rule sameOutside_trans)
    from this IH [OF rest] show ?thesis by (rule sameOutside_trans)
  qed
qed

section \<open>Properties of alloc at particular inputs\<close>

lemmas run_defs = alloc_def needGC_def expandAllocationsIfNeeded_def extalloc_def emit_def
  tryGC_def GC_def fail_def expandHeap_def double_def heapAllocationSize_def
  appendAllocations_def newHeapAllocation_def wasmPageSize_def Let_def free_def

text \<open>
  C8.  A call \<open>alloc(0)\<close> made while no collection is in progress returns the address
  of \<open>zeroSizedAlloc\<close>, whatever the state, and changes nothing but \<open>gcMallocs\<close>, which
  it increments: no record is appended, \<open>gcTotalAlloc\<close> is unchanged and the host
  allocator is not called.  (During a collection every call of \<open>alloc\<close> panics.)
\<close>

theorem alloc_zero_sentinel:
  "\<not> gcInProgress s \<Longrightarrow>
     alloc w k 0 s = Returned (zeroSizedAlloc w) (s\<lparr>gcMallocs := gcMallocs s + 1\<rparr>)"
  by (simp add: alloc_def)

theorem alloc_zero_sentinel_witness:
  "\<not> gcInProgress bootState \<and>
   alloc exampleWorld 1 0 bootState = Returned 1024 (bootState\<lparr>gcMallocs := 1\<rparr>)"
  using alloc_zero_sentinel [of bootState exampleWorld 1]
  by (simp add: bootState_def exampleWorld_def)


text \<open>The leaking variant has the test: it stops before the host is asked.\<close>

lemma alloc_leaking_wrap_aborts:
  "lkTotalAlloc l + ucast (sz + alignedPtrSize w) < lkTotalAlloc l \<Longrightarrow> sz \<noteq> 0 \<Longrightarrow>
     alloc_leaking w sz l = LeakPanicked AbortTrap l"
  by (simp add: alloc_leaking_def)

text \<open>
  C7.  At the first allocation of a program the list is full (length and capacity are
  0).  When the host refuses the buffer of the list and no collection has run,
  \<open>expandAllocationsIfNeeded\<close> runs the collection, sets the flag and then goes on:
  it installs the nil pointer as the buffer with capacity 1 and returns to the same
  iteration of the loop of \<open>alloc\<close>, which requests the 12 bytes, writes the record
  through the nil buffer and returns.  One iteration of the loop is enough for that.
\<close>

theorem alloc_installs_nil_buffer:
  "expandAllocationsIfNeeded refusingWorld False bootState =
     Ok True (bootState\<lparr>allocPtr := 0, allocSpare := [junk refusingWorld],
                extallocCalls := 1, trace := [ExtAlloc 16, CallGC]\<rparr>) \<and>
   alloc refusingWorld 1 8 bootState =
     Returned 4096
       (bootState\<lparr>gcMallocs := 1, gcTotalAlloc := 12,
          allocations := [\<lparr>start = 4096, end' = 4108, marked = False, next' = None\<rparr>],
          allocPtr := 0, extallocCalls := 2,
          trace := [ExtAlloc 16, CallGC, ExtAlloc 12, Memzero 4096 12]\<rparr>)"
  by (simp add: bootState_def exampleWorld_def refusingWorld_def run_defs)

text \<open>When a collection has already run in the call, the refusal is a panic.\<close>

lemma expandAllocations_refused_after_GC:
  "allocSpare s = [] \<Longrightarrow>
   extallocRet w (extallocCalls s)
     (of_nat (double (length (allocations s))) * heapAllocationSize) = 0 \<Longrightarrow>
   expandAllocationsIfNeeded w True s =
     Abort GcAllocPanic
       (emit (ExtAlloc (of_nat (double (length (allocations s))) * heapAllocationSize))
          (s\<lparr>extallocCalls := extallocCalls s + 1\<rparr>))"
  by (simp add: expandAllocationsIfNeeded_def extalloc_def tryGC_def fail_def Let_def)

section \<open>Collect once, then grow\<close>

lemma gcPolicy_append:
  "gcPolicy g (a @ b) = (gcPolicy g a \<and> gcPolicy (g \<or> CallGC \<in> set a) b)"
proof (induction a arbitrary: g)
  case Nil
  show ?case by simp
next
  case (Cons e a)
  show ?case by (cases e) (auto simp: Cons.IH)
qed

lemma gcPolicy_frees: "gcPolicy g (map ExtFree ps)"
  by (induction ps) simp_all

lemma gcPolicy_count: "gcPolicy g evs \<Longrightarrow> count_list evs CallGC \<le> (if g then 0 else 1)"
proof (induction evs arbitrary: g)
  case Nil
  show ?case by simp
next
  case (Cons e evs)
  show ?case
  proof (cases e)
    case CallGC
    with Cons.prems have "\<not> g" "gcPolicy True evs" by simp_all
    with Cons.IH [of True] CallGC show ?thesis by auto
  next
    case GrowLimit
    with Cons.prems Cons.IH [of g] show ?thesis by auto
  next
    case (ExtAlloc x)
    with Cons.prems Cons.IH [of g] show ?thesis by auto
  next
    case (ExtFree x)
    with Cons.prems Cons.IH [of g] show ?thesis by auto
  next
    case (Memzero x y)
    with Cons.prems Cons.IH [of g] show ?thesis by auto
  qed
qed

lemma gcPolicy_grow:
  "gcPolicy g evs \<Longrightarrow> i < length evs \<Longrightarrow> evs ! i = GrowLimit \<Longrightarrow> g \<or> CallGC \<in> set (take i evs)"
proof (induction evs arbitrary: g i)
  case Nil
  then show ?case by simp
next
  case (Cons e evs)
  show ?case
  proof (cases i)
    case 0
    with Cons.prems show ?thesis by simp
  next
    case (Suc j)
    with Cons.prems have j: "j < length evs" "evs ! j = GrowLimit" by simp_all
    show ?thesis
    proof (cases e)
      case CallGC
      with Suc show ?thesis by simp
    next
      case GrowLimit
      with Cons.prems have "g" by simp
      then show ?thesis by simp
    next
      case (ExtAlloc x)
      with Cons.prems have "gcPolicy g evs" by simp
      from Cons.IH [OF this j] Suc show ?thesis by auto
    next
      case (ExtFree x)
      with Cons.prems have "gcPolicy g evs" by simp
      from Cons.IH [OF this j] Suc show ?thesis by auto
    next
      case (Memzero x y)
      with Cons.prems have "gcPolicy g evs" by simp
      from Cons.IH [OF this j] Suc show ?thesis by auto
    qed
  qed
qed

lemma unat_pow2:
  assumes "k < 32"
  shows "unat ((2::uintptr) ^ k) = 2 ^ k"
proof -
  from assms have lt: "(2::nat) ^ k < 2 ^ 32" by (intro power_strict_increasing) simp_all
  have "unat ((2::uintptr) ^ k) = unat (of_nat (2 ^ k) :: uintptr)" by simp
  also have "\<dots> = take_bit 32 ((2::nat) ^ k)" by (simp only: unsigned_of_nat) simp
  also have "\<dots> = 2 ^ k" using lt by (simp only: take_bit_nat_eq_self)
  finally show ?thesis .
qed

lemma pow2_le:
  assumes "k \<le> m" "m < 32"
  shows "(2::uintptr) ^ k \<le> 2 ^ m"
proof -
  from assms have "k < 32" by simp
  from unat_pow2 [OF this] unat_pow2 [OF assms(2)] assms(1) show ?thesis
    by (simp add: word_le_nat_alt)
qed

lemma adjustLoop_shape: "\<exists>j. adjustLoop t sz l = push_bit j l"
proof (induction t sz l rule: adjustLoop.induct)
  case (1 t sz l)
  show ?case
  proof (cases "l \<noteq> 0 \<and> ucast t + sz > l")
    case True
    from "1.IH" [OF True] obtain j where "adjustLoop t sz (push_bit 1 l) = push_bit j (push_bit 1 l)" ..
    with True have "adjustLoop t sz l = push_bit (j + 1) l"
      by (simp add: adjustLoop.simps [of t sz l] push_bit_push_bit)
    then show ?thesis ..
  next
    case False
    then have "adjustLoop t sz l = push_bit 0 l" by (subst adjustLoop.simps) auto
    then show ?thesis ..
  qed
qed

lemma adjust_grown:
  "grown l (if adjustLoop t sz l = 0 then NOT 0 else adjustLoop t sz l)"
  unfolding grown_def
proof
  assume ok: "limitOk l"
  let ?r = "adjustLoop t sz l"
  let ?r' = "if ?r = 0 then NOT 0 else ?r"
  from adjustLoop_shape obtain j where j: "?r = push_bit j l" by blast
  show "limitOk ?r' \<and> l \<le> ?r' \<and> (?r' = NOT 0 \<or> (\<exists>j. ?r' = push_bit j l))"
  proof (cases "?r = 0")
    case True
    then show ?thesis by (simp add: limitOk_def)
  next
    case False
    from ok show ?thesis unfolding limitOk_def
    proof
      assume top: "l = NOT 0"
      then have "?r = l" by (subst adjustLoop.simps) simp
      with top show "(?r' = NOT 0 \<or> (\<exists>k<32. ?r' = 2 ^ k)) \<and> l \<le> ?r' \<and>
          (?r' = NOT 0 \<or> (\<exists>j. ?r' = push_bit j l))" by simp
    next
      assume "\<exists>k<32. l = 2 ^ k"
      then obtain k where k: "k < 32" "l = 2 ^ k" by blast
      with j have r: "?r = 2 ^ (k + j)" by (simp add: push_bit_eq_mult power_add)
      with False have lt: "k + j < 32" by simp
      then have "(2::uintptr) ^ k \<le> 2 ^ (k + j)" by (intro pow2_le) simp_all
      then have "l \<le> ?r" using r k(2) by simp
      then have le: "l \<le> ?r'" using False by simp
      from r lt False have p: "\<exists>k<32. ?r' = 2 ^ k" by auto
      from j False have "?r' = push_bit j l" by simp
      then have s: "\<exists>j. ?r' = push_bit j l" ..
      from p le s show "(?r' = NOT 0 \<or> (\<exists>k<32. ?r' = 2 ^ k)) \<and> l \<le> ?r' \<and>
          (?r' = NOT 0 \<or> (\<exists>j. ?r' = push_bit j l))" by blast
    qed
  qed
qed

lemma grown_refl: "grown l l"
  unfolding grown_def by (auto intro: exI [of _ 0])

lemma grown_trans:
  assumes "grown a b" "grown b c"
  shows "grown a c"
  unfolding grown_def
proof
  assume ok: "limitOk a"
  with assms(1) have b: "limitOk b" "a \<le> b" "b = NOT 0 \<or> (\<exists>j. b = push_bit j a)"
    unfolding grown_def by blast+
  with assms(2) have c: "limitOk c" "b \<le> c" "c = NOT 0 \<or> (\<exists>j. c = push_bit j b)"
    unfolding grown_def by blast+
  have "c = NOT 0 \<or> (\<exists>j. c = push_bit j a)"
  proof (cases "c = NOT 0")
    case True
    then show ?thesis ..
  next
    case False
    with c(2) have "b \<noteq> NOT 0" by (auto simp: word_order.extremum_unique)
    with b(3) obtain j where "b = push_bit j a" by blast
    moreover from False c(3) obtain j' where "c = push_bit j' b" by blast
    ultimately have "c = push_bit (j' + j) a" by (simp add: push_bit_push_bit)
    then show ?thesis by blast
  qed
  with b(2) c(1,2) show "limitOk c \<and> a \<le> c \<and> (c = NOT 0 \<or> (\<exists>j. c = push_bit j a))"
    by auto
qed


lemma follows_refl: "follows g s g s"
  by (simp add: follows_def grown_refl)

lemma follows_trans:
  assumes "follows g s g1 s1" "follows g1 s1 g2 s2"
  shows "follows g s g2 s2"
proof -
  from assms(1) obtain a where a: "trace s1 = trace s @ a" "gcPolicy g a"
    "g1 = (g \<or> CallGC \<in> set a)" "GrowLimit \<notin> set a \<longrightarrow> heapUsageLimit s1 = heapUsageLimit s"
    and ga: "grown (heapUsageLimit s) (heapUsageLimit s1)"
    unfolding follows_def by blast
  from assms(2) obtain b where b: "trace s2 = trace s1 @ b" "gcPolicy g1 b"
    "g2 = (g1 \<or> CallGC \<in> set b)" "GrowLimit \<notin> set b \<longrightarrow> heapUsageLimit s2 = heapUsageLimit s1"
    and gb: "grown (heapUsageLimit s1) (heapUsageLimit s2)"
    unfolding follows_def by blast
  have "trace s2 = trace s @ (a @ b)" using a(1) b(1) by simp
  moreover have "gcPolicy g (a @ b)" using a(2,3) b(2) by (simp add: gcPolicy_append)
  moreover have "g2 = (g \<or> CallGC \<in> set (a @ b))" using a(3) b(3) by auto
  moreover have "GrowLimit \<notin> set (a @ b) \<longrightarrow> heapUsageLimit s2 = heapUsageLimit s"
    using a(4) b(4) by auto
  moreover from ga gb have "grown (heapUsageLimit s) (heapUsageLimit s2)" by (rule grown_trans)
  ultimately show ?thesis unfolding follows_def by blast
qed

lemma follows_quiet:
  assumes "trace s' = trace s @ evs" "heapUsageLimit s' = heapUsageLimit s"
    "CallGC \<notin> set evs" "GrowLimit \<notin> set evs"
  shows "follows g s g s'"
proof -
  have "gcPolicy g evs" using assms(3,4)
  proof (induction evs)
    case Nil
    show ?case by simp
  next
    case (Cons e evs)
    then show ?case by (cases e) simp_all
  qed
  moreover from assms(2) have "grown (heapUsageLimit s) (heapUsageLimit s')"
    by (simp add: grown_refl)
  ultimately show ?thesis using assms unfolding follows_def by blast
qed

lemma sweep_loop_frame:
  "sweep_loop n i j s = (j', s') \<Longrightarrow>
     heapUsageLimit s' = heapUsageLimit s \<and> gcInProgress s' = gcInProgress s \<and>
     gcMallocs s' = gcMallocs s \<and> extallocCalls s' = extallocCalls s \<and>
     allocSpare s' = allocSpare s \<and> allocPtr s' = allocPtr s \<and>
     referenceScanQueue s' = referenceScanQueue s"
proof (induction n i j s arbitrary: j' s' rule: sweep_loop.induct)
  case (1 n i j s)
  show ?case
  proof (cases "i < n")
    case False
    with "1.prems" show ?thesis by (simp add: sweep_loop.simps [of n i j s])
  next
    case True
    show ?thesis
    proof (cases "marked (allocations s ! i)")
      case False
      with True "1.prems"
      have "sweep_loop n (i + 1) j (free (start (allocations s ! i)) s) = (j', s')"
        by (simp add: sweep_loop.simps [of n i j s] Let_def)
      from "1.IH"(1) [OF True refl False this] show ?thesis
        by (simp add: free_def emit_def)
    next
      case mk: True
      with True "1.prems"
      have "sweep_loop n (i + 1) (j + 1)
              (s\<lparr>allocations := (allocations s)[j := allocations s ! i],
                 gcTotalAlloc := gcTotalAlloc s +
                   ucast (end' (allocations s ! i) - start (allocations s ! i))\<rparr>) = (j', s')"
        by (simp add: sweep_loop.simps [of n i j s] Let_def)
      from "1.IH"(2) [OF True refl _ this] mk show ?thesis by simp
    qed
  qed
qed

lemma sweep_frame:
  "heapUsageLimit (sweep s) = heapUsageLimit s"
  "gcInProgress (sweep s) = gcInProgress s"
  "gcMallocs (sweep s) = gcMallocs s"
  "extallocCalls (sweep s) = extallocCalls s"
  "allocPtr (sweep s) = allocPtr s"
  "referenceScanQueue (sweep s) = referenceScanQueue s"
proof -
  obtain j s' where run: "sweep_loop (length (allocations s)) 0 0 (s\<lparr>gcTotalAlloc := 0\<rparr>) = (j, s')"
    by (cases "sweep_loop (length (allocations s)) 0 0 (s\<lparr>gcTotalAlloc := 0\<rparr>)")
  from sweep_loop_frame [OF run]
  show "heapUsageLimit (sweep s) = heapUsageLimit s"
    "gcInProgress (sweep s) = gcInProgress s"
    "gcMallocs (sweep s) = gcMallocs s"
    "extallocCalls (sweep s) = extallocCalls s"
    "allocPtr (sweep s) = allocPtr s"
    "referenceScanQueue (sweep s) = referenceScanQueue s"
    by (simp_all add: sweep_def run)
qed

text \<open>What a collection that returns leaves behind.\<close>

lemma GC_Ok:
  assumes "GC w s = Ok u s'"
  shows "\<exists>ps. trace s' = trace s @ CallGC # map ExtFree ps"
    and "heapUsageLimit s' = heapUsageLimit s"
    and "gcMallocs s' = gcMallocs s"
    and "extallocCalls s' = extallocCalls s"
    and "gcInProgress s' = False"
proof -
  let ?s = "emit CallGC s"
  let ?s1 = "?s\<lparr>gcInProgress := True\<rparr>"
  from assms have run: "\<not> gcInProgress s" by (auto simp: GC_def Let_def emit_def split: if_splits)
  have all: "(\<exists>ps. trace s' = trace s @ CallGC # map ExtFree ps) \<and>
    heapUsageLimit s' = heapUsageLimit s \<and> gcMallocs s' = gcMallocs s \<and>
    extallocCalls s' = extallocCalls s \<and> gcInProgress s' = False"
  proof (cases "length (allocations s) = 0")
    case True
    with assms run have "s' = ?s1\<lparr>gcInProgress := False\<rparr>"
      by (simp add: GC_def Let_def emit_def)
    then show ?thesis by (simp add: emit_def exI [of _ "[]"])
  next
    case False
    with assms run obtain s2 s3 s4 where
      a: "markStack w (prepareGC ?s1) = Some s2" and b: "findGlobals w s2 = Some s3"
      and c: "finishMarking w s3 = Some s4" and d: "s' = (sweep s4)\<lparr>gcInProgress := False\<rparr>"
      by (auto simp: GC_def Let_def emit_def split: option.splits)
    have p1: "sameOutside ?s1 (prepareGC ?s1)" by (simp add: sameOutside_def prepareGC_def)
    have p2: "sameOutside (prepareGC ?s1) s2"
      using a by (simp add: markStack_def markRanges_sameOutside)
    have p3: "sameOutside s2 s3"
      using b by (simp add: findGlobals_def markRanges_sameOutside)
    have p4: "sameOutside s3 s4"
      using c by (rule finishMarking_sameOutside)
    note st = sameOutside_trans
    have so: "sameOutside ?s1 s4" by (rule st [OF st [OF st [OF p1 p2] p3] p4])
    note f = sameOutside_fields [OF so]
    have "trace s' = trace s @ CallGC # map ExtFree (map start (filter (\<lambda>r. \<not> marked r) (allocations s4)))"
      using f(1) by (simp add: d sweep_result emit_def comp_def)
    then have "\<exists>ps. trace s' = trace s @ CallGC # map ExtFree ps" by blast
    with f show ?thesis by (simp add: d sweep_frame emit_def)
  qed
  from all show "\<exists>ps. trace s' = trace s @ CallGC # map ExtFree ps"
    and "heapUsageLimit s' = heapUsageLimit s"
    and "gcMallocs s' = gcMallocs s"
    and "extallocCalls s' = extallocCalls s"
    and "gcInProgress s' = False" by blast+
qed

lemma GC_Abort:
  assumes "GC w s = Abort p s'"
  shows "s' = emit CallGC s"
  using assms by (auto simp: GC_def Let_def split: if_splits option.splits)

lemma GC_follows:
  assumes "GC w s = Ok u s' \<or> GC w s = Abort p s'"
  shows "follows False s True s'"
proof -
  from assms have "\<exists>ps. trace s' = trace s @ CallGC # map ExtFree ps \<and> heapUsageLimit s' = heapUsageLimit s"
  proof
    assume "GC w s = Ok u s'"
    from GC_Ok(1,2) [OF this] show ?thesis by blast
  next
    assume "GC w s = Abort p s'"
    from GC_Abort [OF this] show ?thesis by (simp add: emit_def exI [of _ "[]"])
  qed
  then obtain ps where ps: "trace s' = trace s @ CallGC # map ExtFree ps"
    and l: "heapUsageLimit s' = heapUsageLimit s" by blast
  have "gcPolicy False (CallGC # map ExtFree ps)" by (simp add: gcPolicy_frees)
  with ps l have "\<exists>evs. trace s' = trace s @ evs \<and> gcPolicy False evs \<and>
      True = (False \<or> CallGC \<in> set evs) \<and>
      (GrowLimit \<notin> set evs \<longrightarrow> heapUsageLimit s' = heapUsageLimit s)"
    by (intro exI [of _ "CallGC # map ExtFree ps"]) simp
  moreover from l have "grown (heapUsageLimit s) (heapUsageLimit s')" by (simp add: grown_refl)
  ultimately show ?thesis unfolding follows_def by blast
qed

lemma adjust_follows: "follows True s True (adjustHeapUsageLimit sz s)"
proof -
  have "grown (heapUsageLimit s) (heapUsageLimit (adjustHeapUsageLimit sz s))"
    using adjust_grown [of "heapUsageLimit s" "gcTotalAlloc s" sz]
    by (simp add: adjustHeapUsageLimit_def emit_def Let_def)
  moreover have "\<exists>evs. trace (adjustHeapUsageLimit sz s) = trace s @ evs \<and> gcPolicy True evs \<and>
      True = (True \<or> CallGC \<in> set evs) \<and>
      (GrowLimit \<notin> set evs \<longrightarrow>
         heapUsageLimit (adjustHeapUsageLimit sz s) = heapUsageLimit s)"
    by (intro exI [of _ "[GrowLimit]"]) (simp add: adjustHeapUsageLimit_def emit_def Let_def)
  ultimately show ?thesis unfolding follows_def by blast
qed

lemma tryGC_follows:
  assumes "tryGC w g sz fn s = Ok g' s' \<or> (tryGC w g sz fn s = Abort p s' \<and> g' = True)"
    and "fn = expandHeap \<or> fn = fail"
  shows "follows g s g' s'"
proof (cases g)
  case False
  with assms(1) have "(GC w s = Ok () s' \<or> GC w s = Abort p s') \<and> g' = True"
    by (auto simp: tryGC_def split: step.splits)
  with GC_follows [of w s "()" s' p] False show ?thesis by simp
next
  case True
  from assms(2) show ?thesis
  proof
    assume "fn = expandHeap"
    with True assms(1) have "s' = adjustHeapUsageLimit sz s" "g' = True"
      by (auto simp: tryGC_def expandHeap_def)
    with True show ?thesis by (simp add: adjust_follows)
  next
    assume "fn = fail"
    with True assms(1) have "s' = s" "g' = True"
      by (auto simp: tryGC_def fail_def)
    with True show ?thesis by (simp add: follows_refl)
  qed
qed

lemma extalloc_follows: "extalloc w sz s = (p, s1) \<Longrightarrow> follows g s g s1"
  by (rule follows_quiet [of _ _ "[ExtAlloc sz]"]) (auto simp: extalloc_def emit_def)

lemma free_follows: "follows g s g (free p s)"
  by (rule follows_quiet [of _ _ "[ExtFree p]"]) (auto simp: free_def emit_def)

lemma expandAllocations_follows:
  assumes "expandAllocationsIfNeeded w g s = Ok g' s'
           \<or> (expandAllocationsIfNeeded w g s = Abort p s' \<and> g' = True)"
  shows "follows g s g' s'"
proof (cases "allocSpare s = []")
  case False
  with assms have "s' = s" "g' = g"
    by (auto simp: expandAllocationsIfNeeded_def Let_def)
  then show ?thesis by (simp add: follows_refl)
next
  case True
  let ?cap = "double (length (allocations s) + length (allocSpare s))"
  obtain ptr s1 where ex: "extalloc w (of_nat ?cap * heapAllocationSize) s = (ptr, s1)"
    by (cases "extalloc w (of_nat ?cap * heapAllocationSize) s")
  note f1 = extalloc_follows [OF ex, of g]
  let ?r = "if ptr = 0 then tryGC w g 0 fail s1 else Ok g s1"
  from assms True ex have cases:
    "(\<exists>s2. ?r = Ok g' s2 \<and>
        (s' = s2\<lparr>allocPtr := ptr,
                  allocations := take (length (allocations s)) (allocations s2 @ allocSpare s2),
                  allocSpare := replicate (?cap - length (allocations s)) (junk w)\<rparr>
         \<or> s' = free (allocPtr s)
                  (s2\<lparr>allocPtr := ptr,
                  allocations := take (length (allocations s)) (allocations s2 @ allocSpare s2),
                  allocSpare := replicate (?cap - length (allocations s)) (junk w)\<rparr>)))
     \<or> (?r = Abort p s' \<and> g' = True)"
    by (auto simp: expandAllocationsIfNeeded_def Let_def split: step.splits if_splits)
  then show ?thesis
  proof
    assume "?r = Abort p s' \<and> g' = True"
    then have "tryGC w g 0 fail s1 = Abort p s' \<and> g' = True" by (auto split: if_splits)
    then have "follows g s1 g' s'" by (intro tryGC_follows [where fn = fail and p = p]) auto
    with f1 show ?thesis by (rule follows_trans)
  next
    assume "\<exists>s2. ?r = Ok g' s2 \<and>
        (s' = s2\<lparr>allocPtr := ptr,
                  allocations := take (length (allocations s)) (allocations s2 @ allocSpare s2),
                  allocSpare := replicate (?cap - length (allocations s)) (junk w)\<rparr>
         \<or> s' = free (allocPtr s)
                  (s2\<lparr>allocPtr := ptr,
                  allocations := take (length (allocations s)) (allocations s2 @ allocSpare s2),
                  allocSpare := replicate (?cap - length (allocations s)) (junk w)\<rparr>))"
    then obtain s2 where r: "?r = Ok g' s2" and
      s': "s' = s2\<lparr>allocPtr := ptr,
                  allocations := take (length (allocations s)) (allocations s2 @ allocSpare s2),
                  allocSpare := replicate (?cap - length (allocations s)) (junk w)\<rparr>
         \<or> s' = free (allocPtr s)
                  (s2\<lparr>allocPtr := ptr,
                  allocations := take (length (allocations s)) (allocations s2 @ allocSpare s2),
                  allocSpare := replicate (?cap - length (allocations s)) (junk w)\<rparr>)"
      by blast
    have f2: "follows g s1 g' s2"
    proof (cases "ptr = 0")
      case True
      with r have "tryGC w g 0 fail s1 = Ok g' s2" by simp
      then show ?thesis by (intro tryGC_follows [where fn = fail and p = p]) auto
    next
      case False
      with r show ?thesis by (simp add: follows_refl)
    qed
    have f3: "follows g' s2 g' s'"
      using s' by (intro follows_quiet [of _ _ "drop (length (trace s2)) (trace s')"])
        (auto simp: free_def emit_def)
    from follows_trans [OF follows_trans [OF f1 f2] f3] show ?thesis .
  qed
qed

lemma alloc_loop_follows:
  "allocState (alloc_loop w k sz g s) = Some s' \<Longrightarrow> \<exists>g'. follows g s g' s'"
proof (induction k arbitrary: g s)
  case 0
  then show ?case by (auto intro: follows_refl)
next
  case (Suc k)
  show ?case
  proof (cases "needGC sz s")
    case True
    show ?thesis
    proof (cases "tryGC w g sz expandHeap s")
      case (Ok g1 s1)
      then have f: "follows g s g1 s1" by (intro tryGC_follows [where fn = expandHeap and p = GcAllocPanic]) auto
      from Suc.prems True Ok have "allocState (alloc_loop w k sz g1 s1) = Some s'" by simp
      from Suc.IH [OF this] obtain g' where "follows g1 s1 g' s'" ..
      with f show ?thesis by (blast intro: follows_trans)
    next
      case (Abort p s1)
      then have "follows g s True s1" by (intro tryGC_follows [where fn = expandHeap and p = p]) auto
      moreover from Suc.prems True Abort have "s' = s1" by simp
      ultimately show ?thesis by blast
    next
      case Diverge
      with Suc.prems True show ?thesis by simp
    qed
  next
    case False
    show ?thesis
    proof (cases "expandAllocationsIfNeeded w g s")
      case (Abort p s1)
      then have "follows g s True s1" by (intro expandAllocations_follows [where p = p]) auto
      moreover from Suc.prems False Abort have "s' = s1" by simp
      ultimately show ?thesis by blast
    next
      case Diverge
      with Suc.prems False show ?thesis by simp
    next
      case (Ok g1 s1)
      then have f1: "follows g s g1 s1" by (intro expandAllocations_follows [where p = GcAllocPanic]) auto
      obtain ptr s2 where ex: "extalloc w sz s1 = (ptr, s2)" by (cases "extalloc w sz s1")
      from follows_trans [OF f1 extalloc_follows [OF ex]] have f2: "follows g s g1 s2" .
      show ?thesis
      proof (cases "ptr = 0")
        case nil: True
        show ?thesis
        proof (cases "tryGC w g1 sz fail s2")
          case (Ok g2 s3)
          then have f3: "follows g1 s2 g2 s3" by (intro tryGC_follows [where fn = fail and p = GcAllocPanic]) auto
          from Suc.prems False \<open>expandAllocationsIfNeeded w g s = Ok g1 s1\<close> ex nil Ok
          have "allocState (alloc_loop w k sz g2 s3) = Some s'" by simp
          from Suc.IH [OF this] obtain g' where "follows g2 s3 g' s'" ..
          with follows_trans [OF f2 f3] show ?thesis by (blast intro: follows_trans)
        next
          case (Abort p s3)
          then have "follows g1 s2 True s3" by (intro tryGC_follows [where fn = fail and p = p]) auto
          moreover from Suc.prems False \<open>expandAllocationsIfNeeded w g s = Ok g1 s1\<close> ex nil Abort
          have "s' = s3" by simp
          ultimately show ?thesis using f2 by (blast intro: follows_trans)
        next
          case Diverge
          with Suc.prems False \<open>expandAllocationsIfNeeded w g s = Ok g1 s1\<close> ex nil
          show ?thesis by simp
        qed
      next
        case ok: False
        from Suc.prems False \<open>expandAllocationsIfNeeded w g s = Ok g1 s1\<close> ex ok
        have s': "s' = emit (Memzero ptr sz)
                    ((appendAllocations (newHeapAllocation ptr sz) s2)
                       \<lparr>gcTotalAlloc := gcTotalAlloc (appendAllocations (newHeapAllocation ptr sz) s2) + ucast sz\<rparr>)"
          by (simp add: Let_def)
        have "follows g1 s2 g1 s'"
          by (rule follows_quiet [of _ _ "[Memzero ptr sz]"])
            (simp_all add: s' emit_def appendAllocations_def)
        with f2 show ?thesis by (blast intro: follows_trans)
      qed
    qed
  qed
qed

lemma alloc_follows:
  assumes "allocState (alloc w k sz s) = Some s'"
  shows "\<exists>g'. follows False s g' s'"
proof (cases "gcInProgress s \<or> sz = 0")
  case True
  with assms have "trace s' = trace s" "heapUsageLimit s' = heapUsageLimit s"
    by (auto simp: alloc_def Let_def split: if_splits)
  then have "follows False s False s'" by (intro follows_quiet [of _ _ "[]"]) simp_all
  then show ?thesis ..
next
  case False
  let ?s1 = "s\<lparr>gcMallocs := gcMallocs s + 1\<rparr>"
  from False assms have "allocState (alloc_loop w k (sz + alignedPtrSize w) False ?s1) = Some s'"
    by (simp add: alloc_def Let_def)
  from alloc_loop_follows [OF this] obtain g' where "follows False ?s1 g' s'" ..
  moreover have "follows False s False ?s1" by (intro follows_quiet [of _ _ "[]"]) simp_all
  ultimately show ?thesis by (blast intro: follows_trans)
qed

text \<open>
  C5.  In every call of \<open>alloc\<close>, however many iterations its loop makes, the events
  that the call adds to the trace contain at most one invocation of \<open>GC\<close>, every
  growth of \<open>heapUsageLimit\<close> comes after an invocation of \<open>GC\<close> in the same call,
  and \<open>heapUsageLimit\<close> is only modified by such a growth.  This holds at every end
  of the call: a returned pointer, a panic, or the loop cut at any iteration.
\<close>

theorem alloc_collects_once_then_grows:
  assumes "allocState (alloc w k sz s) = Some s'"
  shows "\<exists>evs. trace s' = trace s @ evs \<and>
           count_list evs CallGC \<le> 1 \<and>
           (\<forall>i < length evs. evs ! i = GrowLimit \<longrightarrow> CallGC \<in> set (take i evs)) \<and>
           (GrowLimit \<notin> set evs \<longrightarrow> heapUsageLimit s' = heapUsageLimit s)"
proof -
  from alloc_follows [OF assms] have "\<exists>g'. follows False s g' s'" .
  then obtain g' evs where evs: "trace s' = trace s @ evs" "gcPolicy False evs"
    "GrowLimit \<notin> set evs \<longrightarrow> heapUsageLimit s' = heapUsageLimit s"
    unfolding follows_def by blast
  from gcPolicy_count [OF evs(2)] have "count_list evs CallGC \<le> 1" by simp
  moreover from gcPolicy_grow [OF evs(2)]
  have "\<forall>i < length evs. evs ! i = GrowLimit \<longrightarrow> CallGC \<in> set (take i evs)" by simp
  ultimately show ?thesis using evs(1,3) by blast
qed

theorem alloc_collects_once_then_grows_witness:
  "allocState (alloc exampleWorld 3 524288 bootState) = Some (bootState\<lparr>gcMallocs := 1, gcTotalAlloc := 524292, heapUsageLimit := 1048576,
        allocations := [\<lparr>start = 4352, end' = 528644, marked = False, next' = None\<rparr>],
        allocPtr := 4096, extallocCalls := 2,
        trace := [CallGC, GrowLimit, ExtAlloc 16, ExtAlloc 524292, Memzero 4352 524292]\<rparr>) \<and>
   (\<exists>evs. trace (bootState\<lparr>gcMallocs := 1, gcTotalAlloc := 524292, heapUsageLimit := 1048576,
        allocations := [\<lparr>start = 4352, end' = 528644, marked = False, next' = None\<rparr>],
        allocPtr := 4096, extallocCalls := 2,
        trace := [CallGC, GrowLimit, ExtAlloc 16, ExtAlloc 524292, Memzero 4352 524292]\<rparr>) = trace bootState @ evs \<and>
           count_list evs CallGC \<le> 1 \<and>
           (\<forall>i < length evs. evs ! i = GrowLimit \<longrightarrow> CallGC \<in> set (take i evs)) \<and>
           (GrowLimit \<notin> set evs \<longrightarrow> heapUsageLimit (bootState\<lparr>gcMallocs := 1, gcTotalAlloc := 524292, heapUsageLimit := 1048576,
        allocations := [\<lparr>start = 4352, end' = 528644, marked = False, next' = None\<rparr>],
        allocPtr := 4096, extallocCalls := 2,
        trace := [CallGC, GrowLimit, ExtAlloc 16, ExtAlloc 524292, Memzero 4352 524292]\<rparr>) = heapUsageLimit bootState))"
proof -
  have run: "allocState (alloc exampleWorld 3 524288 bootState) = Some (bootState\<lparr>gcMallocs := 1, gcTotalAlloc := 524292, heapUsageLimit := 1048576,
        allocations := [\<lparr>start = 4352, end' = 528644, marked = False, next' = None\<rparr>],
        allocPtr := 4096, extallocCalls := 2,
        trace := [CallGC, GrowLimit, ExtAlloc 16, ExtAlloc 524292, Memzero 4352 524292]\<rparr>)"
    by (simp add: bootState_def exampleWorld_def run_defs adjustHeapUsageLimit_def
        adjustLoop.simps numeral_3_eq_3)
  from run alloc_collects_once_then_grows [OF run] show ?thesis by (rule conjI)
qed

section \<open>The limit never decreases\<close>

lemmas gc_defs = prepareGC_def sortAllocations_def unmarkAllocations_def markStack_def
  findGlobals_def markRoots_def scan_def sweep_def searchAllocations_def mark_def slotPtr_def
  heapAllocationSize_def
  buildHeap.simps sortLoop.simps heapify.simps sweep_loop.simps searchLoop.simps
  finishMarking.simps scan_loop.simps adjustHeapUsageLimit_def adjustLoop.simps










section \<open>Searching and marking\<close>

lemma ordered_head:
  "disjointRanges (r # rs) \<Longrightarrow> startBeforeEnd (r # rs) \<Longrightarrow> \<forall>x\<in>set rs. end' r \<le> start x"
proof (induction rs arbitrary: r)
  case Nil
  then show ?case by simp
next
  case (Cons r' rs)
  from Cons.prems have a: "end' r \<le> start r'" "disjointRanges (r' # rs)"
    "start r' \<le> end' r'" "startBeforeEnd (r' # rs)"
    by (simp_all add: startBeforeEnd_def)
  from Cons.IH [OF a(2) a(4)] have "\<forall>x\<in>set rs. end' r' \<le> start x" .
  with a(1,3) show ?case by auto
qed

lemma ordered_tail:
  "disjointRanges (r # rs) \<Longrightarrow> disjointRanges rs"
  "startBeforeEnd (r # rs) \<Longrightarrow> startBeforeEnd rs"
  by (cases rs, simp_all add: startBeforeEnd_def)+

lemma ordered_sorted_wrt:
  "disjointRanges rs \<Longrightarrow> startBeforeEnd rs \<Longrightarrow> sorted_wrt (\<lambda>a b. end' a \<le> start b) rs"
proof (induction rs)
  case Nil
  show ?case by simp
next
  case (Cons r rs)
  from ordered_head [OF Cons.prems] Cons.IH [OF ordered_tail(1) [OF Cons.prems(1)]
      ordered_tail(2) [OF Cons.prems(2)]]
  show ?case by simp
qed

lemma ordered_nth:
  assumes "disjointRanges rs" "startBeforeEnd rs"
  shows "i < j \<Longrightarrow> j < length rs \<Longrightarrow> end' (rs ! i) \<le> start (rs ! j)"
    and "i < length rs \<Longrightarrow> start (rs ! i) \<le> end' (rs ! i)"
  using ordered_sorted_wrt [OF assms] assms(2)
  by (auto simp: sorted_wrt_iff_nth_less startBeforeEnd_def list_all_length)

text \<open>Two records that contain the same address touch at it.\<close>

lemma ordered_shared:
  assumes "disjointRanges rs" "startBeforeEnd rs" "i < j" "j < length rs"
    "inAllocation (rs ! i) addr" "inAllocation (rs ! j) addr"
  shows "addr = end' (rs ! i) \<and> addr = start (rs ! j)"
  using ordered_nth(1) [OF assms(1,2,3,4)] assms(5,6) by (auto simp: inAllocation_def)

lemma searchLoop_Some:
  "searchLoop arr addr low high = Some m \<Longrightarrow>
     low \<le> m \<and> m < high \<and> inAllocation (arr ! m) addr"
proof (induction arr addr low high rule: searchLoop.induct)
  case (1 arr addr low high)
  let ?mid = "low + (high - low) div 2"
  from "1.prems" have lt: "low < high"
    by (simp add: searchLoop.simps [of arr addr low high] split: if_splits)
  then have mid: "low \<le> ?mid" "?mid < high" by simp_all
  show ?case
  proof (cases "addr < start (arr ! ?mid)")
    case True
    with lt "1.prems" have "searchLoop arr addr low ?mid = Some m"
      by (simp add: searchLoop.simps [of arr addr low high] Let_def)
    from "1.IH"(1) [OF lt refl True this] mid show ?thesis by simp
  next
    case False
    show ?thesis
    proof (cases "addr > end' (arr ! ?mid)")
      case True
      with False lt "1.prems" have "searchLoop arr addr (?mid + 1) high = Some m"
        by (simp add: searchLoop.simps [of arr addr low high] Let_def)
      from "1.IH"(2) [OF lt refl False True this] mid show ?thesis by simp
    next
      case nb: False
      with False lt "1.prems" have "m = ?mid"
        by (simp add: searchLoop.simps [of arr addr low high] Let_def)
      with False nb mid show ?thesis by (simp add: inAllocation_def not_less)
    qed
  qed
qed

lemma searchLoop_None:
  "disjointRanges arr \<Longrightarrow> startBeforeEnd arr \<Longrightarrow> searchLoop arr addr low high = None \<Longrightarrow>
     high \<le> length arr \<Longrightarrow> low \<le> i \<Longrightarrow> i < high \<Longrightarrow> \<not> inAllocation (arr ! i) addr"
proof (induction arr addr low high rule: searchLoop.induct)
  case (1 arr addr low high)
  let ?mid = "low + (high - low) div 2"
  note dj = "1.prems"(1) and wf = "1.prems"(2) and none = "1.prems"(3) and len = "1.prems"(4)
    and li = "1.prems"(5) and ih = "1.prems"(6)
  from li ih have lt: "low < high" by simp
  then have mid: "low \<le> ?mid" "?mid < high" by simp_all
  from mid len have midlen: "?mid < length arr" "?mid \<le> length arr" by simp_all
  from ih len have ilen: "i < length arr" by simp
  note ap = ordered_nth [OF dj wf]
  show ?case
  proof (cases "addr < start (arr ! ?mid)")
    case True
    with lt none have rec: "searchLoop arr addr low ?mid = None"
      by (simp add: searchLoop.simps [of arr addr low high] Let_def)
    show ?thesis
    proof (cases "i < ?mid")
      case lo: True
      from "1.IH"(1) [OF lt refl True dj wf rec midlen(2) li lo] show ?thesis .
    next
      case hi: False
      have "addr < start (arr ! i)"
      proof (cases "i = ?mid")
        case True
        with \<open>addr < start (arr ! ?mid)\<close> show ?thesis by simp
      next
        case False
        with hi have "?mid < i" by simp
        from ap(1) [OF this ilen] ap(2) [OF midlen(1)]
        have "start (arr ! ?mid) \<le> start (arr ! i)" by simp
        with True show ?thesis by simp
      qed
      then show ?thesis by (auto simp: inAllocation_def)
    qed
  next
    case False
    from none lt False have gt: "addr > end' (arr ! ?mid)"
      by (simp add: searchLoop.simps [of arr addr low high] Let_def split: if_splits)
    with lt False none have rec: "searchLoop arr addr (?mid + 1) high = None"
      by (simp add: searchLoop.simps [of arr addr low high] Let_def)
    show ?thesis
    proof (cases "?mid < i")
      case hi: True
      then have "?mid + 1 \<le> i" by simp
      from "1.IH"(2) [OF lt refl False gt dj wf rec len this ih] show ?thesis .
    next
      case lo: False
      have "end' (arr ! i) < addr"
      proof (cases "i = ?mid")
        case True
        with gt show ?thesis by simp
      next
        case False
        with lo have "i < ?mid" by simp
        from ap(1) [OF this midlen(1)] ap(2) [OF midlen(1)]
        have "end' (arr ! i) \<le> end' (arr ! ?mid)" by simp
        with gt show ?thesis by simp
      qed
      then show ?thesis by (auto simp: inAllocation_def)
    qed
  qed
qed

text \<open>
  What \<open>mark\<close> does on an ordered registry without a slot at address 0: it finds a
  record that contains the address, if there is one, and its result depends on the flag
  of that record.
\<close>

lemma mark_cases:
  assumes dj: "disjointRanges (allocations s)" and wf: "startBeforeEnd (allocations s)"
    and nn: "noNilSlot s"
  shows "(\<exists>m<length (allocations s). inAllocation (allocations s ! m) addr \<and>
            mark addr s = (if marked (allocations s ! m) then (False, s) else (True, pushMarked m s)))
         \<or> ((\<forall>i<length (allocations s). \<not> inAllocation (allocations s ! i) addr) \<and>
             mark addr s = (False, s))"
proof -
  let ?arr = "allocations s"
  let ?n = "length ?arr"
  note ap = ordered_nth [OF dj wf]
  show ?thesis
  proof (cases "?n = 0")
    case True
    then show ?thesis by (simp add: mark_def)
  next
    case False
    then have n: "0 < ?n" "?n - 1 < ?n" by simp_all
    show ?thesis
    proof (cases "addr < start (?arr ! 0) \<or> addr > end' (?arr ! (?n - 1))")
      case True
      with False have m: "mark addr s = (False, s)" by (simp add: mark_def)
      have "\<not> inAllocation (?arr ! i) addr" if i: "i < ?n" for i
      proof -
        have lo: "start (?arr ! 0) \<le> start (?arr ! i)"
        proof (cases "i = 0")
          case True
          then show ?thesis by simp
        next
          case False
          then have "0 < i" by simp
          from ap(1) [OF this i] ap(2) [OF n(1)] show ?thesis by simp
        qed
        have hi: "end' (?arr ! i) \<le> end' (?arr ! (?n - 1))"
        proof (cases "i = ?n - 1")
          case True
          then show ?thesis by simp
        next
          case False
          with i have "i < ?n - 1" by simp
          from ap(1) [OF this n(2)] ap(2) [OF n(2)] show ?thesis by simp
        qed
        from True lo hi show ?thesis by (auto simp: inAllocation_def)
      qed
      with m show ?thesis by blast
    next
      case inside: False
      show ?thesis
      proof (cases "searchLoop ?arr addr 0 ?n")
        case None
        with False inside have m: "mark addr s = (False, s)"
          by (simp add: mark_def searchAllocations_def)
        from searchLoop_None [OF dj wf None] have "\<forall>i<?n. \<not> inAllocation (?arr ! i) addr"
          by simp
        with m show ?thesis by blast
      next
        case (Some m)
        from searchLoop_Some [OF Some] have mm: "m < ?n" "inAllocation (?arr ! m) addr" by simp_all
        from nn mm(1) have "slotPtr s m \<noteq> 0" by (simp add: noNilSlot_def list_all_length)
        with Some False inside
        have "mark addr s = (if marked (?arr ! m) then (False, s) else (True, pushMarked m s))"
          by (simp add: mark_def searchAllocations_def pushMarked_def)
        with mm show ?thesis by blast
      qed
    qed
  qed
qed

text \<open>
  C2 (as amended).  For every address and every registry that is sorted by start with
  disjoint ranges, in which no record ends below its start and no slot lies at address
  0:

  \<^item> if \<open>mark\<close> returns true, some record contains the address in its inclusive interval
    and was not marked, and \<open>mark\<close> has set the flag of that record, linked it to the
    old head of the scan queue and made it the head;
  \<^item> if \<open>mark\<close> returns false, the state is unchanged, and no record contains the
    address or some record that contains it is marked;
  \<^item> if at most one record contains the address, \<open>mark\<close> returns true exactly if some
    record contains the address and is not marked;
  \<^item> two records contain the same address only if it is the end of the one and the start
    of the other.
\<close>

theorem mark_marks_containing_record:
  assumes "sortedByStart (allocations s)" and "disjointRanges (allocations s)"
    and "startBeforeEnd (allocations s)" and "noNilSlot s"
  shows "(fst (mark addr s) \<longrightarrow>
            (\<exists>i<length (allocations s).
                inAllocation (allocations s ! i) addr \<and> \<not> marked (allocations s ! i) \<and>
                snd (mark addr s) = pushMarked i s)) \<and>
         (\<not> fst (mark addr s) \<longrightarrow>
            snd (mark addr s) = s \<and>
            ((\<forall>i<length (allocations s). \<not> inAllocation (allocations s ! i) addr) \<or>
             (\<exists>i<length (allocations s).
                 inAllocation (allocations s ! i) addr \<and> marked (allocations s ! i)))) \<and>
         ((\<forall>i<length (allocations s). \<forall>j<length (allocations s).
              inAllocation (allocations s ! i) addr \<and> inAllocation (allocations s ! j) addr
              \<longrightarrow> i = j) \<longrightarrow>
          fst (mark addr s) =
            (\<exists>i<length (allocations s).
                inAllocation (allocations s ! i) addr \<and> \<not> marked (allocations s ! i))) \<and>
         (\<forall>i j. i < j \<and> j < length (allocations s) \<and>
              inAllocation (allocations s ! i) addr \<and> inAllocation (allocations s ! j) addr
              \<longrightarrow> addr = end' (allocations s ! i) \<and> addr = start (allocations s ! j))"
proof -
  let ?arr = "allocations s"
  let ?n = "length ?arr"
  have shared: "\<forall>i j. i < j \<and> j < ?n \<and> inAllocation (?arr ! i) addr \<and> inAllocation (?arr ! j) addr
      \<longrightarrow> addr = end' (?arr ! i) \<and> addr = start (?arr ! j)"
    using ordered_shared [OF assms(2,3)] by blast
  from mark_cases [OF assms(2,3,4), of addr] show ?thesis
  proof
    assume "\<exists>m<?n. inAllocation (?arr ! m) addr \<and>
        mark addr s = (if marked (?arr ! m) then (False, s) else (True, pushMarked m s))"
    then obtain m where m: "m < ?n" "inAllocation (?arr ! m) addr"
      and mk: "mark addr s = (if marked (?arr ! m) then (False, s) else (True, pushMarked m s))"
      by blast
    show ?thesis
    proof (cases "marked (?arr ! m)")
      case True
      with mk have r: "mark addr s = (False, s)" by simp
      from True m have ex: "\<exists>i<?n. inAllocation (?arr ! i) addr \<and> marked (?arr ! i)" by blast
      have "(\<forall>i<?n. \<forall>j<?n. inAllocation (?arr ! i) addr \<and> inAllocation (?arr ! j) addr \<longrightarrow> i = j)
          \<longrightarrow> \<not> (\<exists>i<?n. inAllocation (?arr ! i) addr \<and> \<not> marked (?arr ! i))"
        using True m by blast
      with r ex shared show ?thesis by simp
    next
      case False
      with mk have r: "mark addr s = (True, pushMarked m s)" by simp
      from False m
      have ex: "\<exists>i<?n. inAllocation (?arr ! i) addr \<and> \<not> marked (?arr ! i) \<and>
          pushMarked m s = pushMarked i s" by blast
      then have "\<exists>i<?n. inAllocation (?arr ! i) addr \<and> \<not> marked (?arr ! i)" by blast
      with r ex shared show ?thesis by simp
    qed
  next
    assume "(\<forall>i<?n. \<not> inAllocation (?arr ! i) addr) \<and> mark addr s = (False, s)"
    then have "mark addr s = (False, s)" "\<forall>i<?n. \<not> inAllocation (?arr ! i) addr" by simp_all
    with shared show ?thesis by auto
  qed
qed

theorem mark_marks_containing_record_witness:
  "sortedByStart (allocations touchingState) \<and> disjointRanges (allocations touchingState) \<and>
   startBeforeEnd (allocations touchingState) \<and> noNilSlot touchingState \<and>
   fst (mark 4100 touchingState) \<and> snd (mark 4100 touchingState) = pushMarked 0 touchingState \<and>
   fst (mark 4108 touchingState) \<and>
   (\<exists>i<length (allocations touchingState). snd (mark 4108 touchingState) = pushMarked i touchingState)"
proof -
  have h: "sortedByStart (allocations touchingState)" "disjointRanges (allocations touchingState)"
    "startBeforeEnd (allocations touchingState)" "noNilSlot touchingState"
    by (simp_all add: touchingState_def bootState_def startBeforeEnd_def noNilSlot_def
        slotPtr_def heapAllocationSize_def upt_rec [of 0] upt_rec [of 1])
  have len: "length (allocations touchingState) = 2" by (simp add: touchingState_def)
  have in0: "inAllocation (allocations touchingState ! 0) 4100"
    "\<not> inAllocation (allocations touchingState ! 1) 4100"
    "inAllocation (allocations touchingState ! 0) 4108"
    "\<not> marked (allocations touchingState ! 0)" "\<not> marked (allocations touchingState ! 1)"
    by (simp_all add: touchingState_def inAllocation_def)
  have all2: "(\<forall>i<2. P i) = (P 0 \<and> P (Suc 0))" for P :: "nat \<Rightarrow> bool"
    by (auto simp: less_Suc_eq numeral_2_eq_2)
  have ex2: "(\<exists>i<2. P i) = (P 0 \<or> P (Suc 0))" for P :: "nat \<Rightarrow> bool"
    by (auto simp: less_Suc_eq numeral_2_eq_2)
  note t1 = mark_marks_containing_record [OF h, of 4100]
  note t2 = mark_marks_containing_record [OF h, of 4108]
  from t1 in0 have a: "fst (mark 4100 touchingState)" by (simp add: len all2 ex2)
  with t1 in0 have b: "snd (mark 4100 touchingState) = pushMarked 0 touchingState"
    by (auto simp: len all2 ex2)
  from t2 in0 have c: "fst (mark 4108 touchingState)" by (auto simp: len all2 ex2)
  with t2 have d: "\<exists>i<length (allocations touchingState).
      snd (mark 4108 touchingState) = pushMarked i touchingState" by blast
  from h a b c d show ?thesis by simp
qed

text \<open>
  C2 (as stated) fails when two records touch.  The registry below is sorted by start
  and its ranges are disjoint; the address 4108 is the end of the first record, which
  is not marked, and the start of the second, which is.  The binary search meets the
  second record first, so \<open>mark\<close> returns false and changes nothing.
\<close>

theorem mark_abutting_counterexample:
  "sortedByStart (allocations abuttingState) \<and> disjointRanges (allocations abuttingState) \<and>
   startBeforeEnd (allocations abuttingState) \<and> noNilSlot abuttingState \<and>
   inAllocation (allocations abuttingState ! 0) 4108 \<and> \<not> marked (allocations abuttingState ! 0) \<and>
   mark 4108 abuttingState = (False, abuttingState)"
  by (simp add: abuttingState_def bootState_def inAllocation_def mark_def searchAllocations_def
      searchLoop.simps slotPtr_def heapAllocationSize_def startBeforeEnd_def noNilSlot_def
      upt_rec [of 0] upt_rec [of 1])

text \<open>
  In a registry whose buffer is at address 0 the pointer to slot 0 is \<open>nil\<close>: \<open>mark\<close>
  does not mark the record of that slot, whatever its flag.
\<close>

lemma mark_nil_slot:
  "inAllocation (allocations nilBufferState ! 0) 4100 \<and> \<not> marked (allocations nilBufferState ! 0) \<and>
   mark 4100 nilBufferState = (False, nilBufferState)"
  by (simp add: nilBufferState_def touchingState_def inAllocation_def mark_def
      searchAllocations_def searchLoop.simps slotPtr_def heapAllocationSize_def)

section \<open>The heap sort of the registry\<close>

lemma heapify_unfold:
  "heapify a n i =
     (if largest a n i \<noteq> i
      then heapify (a[i := a ! largest a n i, largest a n i := a ! i]) n (largest a n i)
      else a)"
  by (subst heapify.simps) (simp add: largest_def Let_def)

lemma largest_cases:
  "(largest a n i = i \<and> dominates a n i) \<or>
   ((largest a n i = 2 * i + 1 \<or> largest a n i = 2 * i + 2) \<and> largest a n i < n \<and>
    start (a ! i) < start (a ! largest a n i) \<and>
    (2 * i + 1 < n \<longrightarrow> start (a ! (2 * i + 1)) \<le> start (a ! largest a n i)) \<and>
    (2 * i + 2 < n \<longrightarrow> start (a ! (2 * i + 2)) \<le> start (a ! largest a n i)))"
  by (auto simp: largest_def dominates_def Let_def not_less)

lemma heapify_induct [consumes 0, case_names stop swap]:
  assumes stop: "\<And>a i. largest a n i = i \<Longrightarrow> P a i"
    and swap: "\<And>a i. largest a n i \<noteq> i \<Longrightarrow>
        P (a[i := a ! largest a n i, largest a n i := a ! i]) (largest a n i) \<Longrightarrow> P a i"
  shows "P a i"
proof (induction "n - i" arbitrary: a i rule: less_induct)
  case less
  show ?case
  proof (cases "largest a n i = i")
    case True
    then show ?thesis by (rule stop)
  next
    case False
    with largest_cases [of a n i] have "i < largest a n i" "largest a n i < n" by auto
    then have "n - largest a n i < n - i" by simp
    from less [OF this] False show ?thesis by (rule swap [rotated])
  qed
qed

lemma heapify_basic:
  "n \<le> length a \<Longrightarrow>
     length (heapify a n i) = length a \<and> mset (heapify a n i) = mset a \<and>
     mset (take n (heapify a n i)) = mset (take n a) \<and> drop n (heapify a n i) = drop n a"
proof (induction a i rule: heapify_induct [where n = n])
  case (stop a i)
  then show ?case by (subst (1 2 3 4) heapify_unfold) simp
next
  case (swap a i)
  let ?m = "largest a n i"
  let ?a' = "a[i := a ! ?m, ?m := a ! i]"
  from swap.hyps largest_cases [of a n i] have m: "i < ?m" "?m < n" by auto
  with swap.prems have len: "i < length a" "?m < length a" "i < n" by simp_all
  from swap.prems have "n \<le> length ?a'" by simp
  from swap.IH [OF this] have ih: "length (heapify ?a' n ?m) = length a"
    "mset (heapify ?a' n ?m) = mset ?a'" "mset (take n (heapify ?a' n ?m)) = mset (take n ?a')"
    "drop n (heapify ?a' n ?m) = drop n ?a'" by simp_all
  have eq: "heapify a n i = heapify ?a' n ?m" using swap.hyps by (subst heapify_unfold) simp
  have 1: "mset ?a' = mset a" using len by (simp add: mset_swap)
  have t: "take n ?a' = (take n a)[i := take n a ! ?m, ?m := take n a ! i]"
    using m len by (simp add: take_update_swap)
  have 2: "mset (take n ?a') = mset (take n a)"
    unfolding t by (rule mset_swap) (use m len swap.prems in simp_all)
  have 3: "drop n ?a' = drop n a" using m len by simp
  from ih 1 2 3 show ?case unfolding eq by simp
qed

lemma sift_step:
  assumes len: "n \<le> length a" and ex: "heapExcept a n lo i" and lo: "lo \<le> i"
    and ne: "largest a n i \<noteq> i"
  shows "heapExcept (a[i := a ! largest a n i, largest a n i := a ! i]) n lo (largest a n i)"
proof -
  let ?m = "largest a n i"
  define a' where "a' = a[i := a ! ?m, ?m := a ! i]"
  from largest_cases [of a n i] ne
  have m: "?m = 2 * i + 1 \<or> ?m = 2 * i + 2" "?m < n" "start (a ! i) < start (a ! ?m)"
    and c1: "2 * i + 1 < n \<Longrightarrow> start (a ! (2 * i + 1)) \<le> start (a ! ?m)"
    and c2: "2 * i + 2 < n \<Longrightarrow> start (a ! (2 * i + 2)) \<le> start (a ! ?m)"
    by auto
  from m have im: "i < ?m" "i < n" by auto
  have nth: "a' ! k = (if k = ?m then a ! i else if k = i then a ! ?m else a ! k)"
    if "k < n" for k
    using that len m(2) im unfolding a'_def by (auto simp: nth_list_update)
  from ex have dom: "\<And>j. lo \<le> j \<Longrightarrow> j \<noteq> i \<Longrightarrow> dominates a n j"
    and par: "\<And>p. lo \<le> p \<Longrightarrow> i = 2 * p + 1 \<or> i = 2 * p + 2 \<Longrightarrow>
        (2 * i + 1 < n \<longrightarrow> start (a ! (2 * i + 1)) \<le> start (a ! p)) \<and>
        (2 * i + 2 < n \<longrightarrow> start (a ! (2 * i + 2)) \<le> start (a ! p))"
    unfolding heapExcept_def by blast+
  have A: "dominates a' n j" if j: "lo \<le> j" "j \<noteq> ?m" for j
  proof (cases "j = i")
    case True
    have "start (a' ! c) \<le> start (a' ! i)" if c: "c = 2 * i + 1 \<or> c = 2 * i + 2" "c < n" for c
    proof (cases "c = ?m")
      case True
      with c im m(3) show ?thesis by (simp add: nth less_imp_le)
    next
      case False
      with c have "a' ! c = a ! c" by (auto simp: nth)
      moreover from c c1 c2 have "start (a ! c) \<le> start (a ! ?m)" by auto
      ultimately show ?thesis using im by (simp add: nth)
    qed
    with True show ?thesis unfolding dominates_def by blast
  next
    case False
    from dom [OF j(1) False] have d: "dominates a n j" .
    have "start (a' ! c) \<le> start (a' ! j)" if c: "c = 2 * j + 1 \<or> c = 2 * j + 2" "c < n" for c
    proof -
      from c have jn: "j < n" by auto
      from False j(2) jn have aj: "a' ! j = a ! j" by (simp add: nth)
      from c False m(1) have cm: "c \<noteq> ?m" by auto
      show ?thesis
      proof (cases "c = i")
        case True
        with c have "i = 2 * j + 1 \<or> i = 2 * j + 2" by simp
        from par [OF j(1) this] m(1,2) have "start (a ! ?m) \<le> start (a ! j)" by auto
        with True aj im show ?thesis by (simp add: nth)
      next
        case ci: False
        with cm c have "a' ! c = a ! c" by (simp add: nth)
        moreover from d c have "start (a ! c) \<le> start (a ! j)" unfolding dominates_def by auto
        ultimately show ?thesis using aj by simp
      qed
    qed
    then show ?thesis unfolding dominates_def by blast
  qed
  have B: "(2 * ?m + 1 < n \<longrightarrow> start (a' ! (2 * ?m + 1)) \<le> start (a' ! p)) \<and>
           (2 * ?m + 2 < n \<longrightarrow> start (a' ! (2 * ?m + 2)) \<le> start (a' ! p))"
    if p: "lo \<le> p" "?m = 2 * p + 1 \<or> ?m = 2 * p + 2" for p
  proof -
    from p(2) m(1) have pi: "p = i" by auto
    from lo im have "lo \<le> ?m" "?m \<noteq> i" by auto
    from dom [OF this] have d: "dominates a n ?m" .
    have "start (a' ! c) \<le> start (a' ! i)" if c: "c = 2 * ?m + 1 \<or> c = 2 * ?m + 2" "c < n" for c
    proof -
      from c im have "c \<noteq> ?m" "c \<noteq> i" by auto
      with c have "a' ! c = a ! c" by (simp add: nth)
      moreover from d c have "start (a ! c) \<le> start (a ! ?m)" unfolding dominates_def by auto
      ultimately show ?thesis using im by (simp add: nth)
    qed
    with pi show ?thesis by blast
  qed
  from A B have "heapExcept a' n lo ?m" unfolding heapExcept_def by blast
  then show ?thesis unfolding a'_def .
qed

lemma heapify_heap:
  "n \<le> length a \<Longrightarrow> heapExcept a n lo i \<Longrightarrow> lo \<le> i \<Longrightarrow> heapFrom (heapify a n i) n lo"
proof (induction a i rule: heapify_induct [where n = n])
  case (stop a i)
  with largest_cases [of a n i] have "dominates a n i"
    by (auto simp: dominates_def)
  with stop.prems(2) have "heapFrom a n lo" unfolding heapFrom_def heapExcept_def by blast
  with stop.hyps show ?case by (subst heapify_unfold) simp
next
  case (swap a i)
  let ?m = "largest a n i"
  let ?a' = "a[i := a ! ?m, ?m := a ! i]"
  from swap.hyps largest_cases [of a n i] have "i < ?m" by auto
  with swap.prems have lo: "lo \<le> ?m" by simp
  from swap.prems have len: "n \<le> length ?a'" by simp
  from sift_step [OF swap.prems(1,2,3) swap.hyps] have "heapExcept ?a' n lo ?m" .
  from swap.IH [OF len this lo] swap.hyps show ?case by (subst heapify_unfold) simp
qed

lemma heap_root_max:
  assumes "heapFrom a n 0"
  shows "j < n \<Longrightarrow> start (a ! j) \<le> start (a ! 0)"
proof (induction j rule: less_induct)
  case (less j)
  show ?case
  proof (cases "j = 0")
    case True
    then show ?thesis by simp
  next
    case False
    let ?p = "(j - 1) div 2"
    from False have pj: "?p < j" "j = 2 * ?p + 1 \<or> j = 2 * ?p + 2" by auto
    from assms have "dominates a n ?p" unfolding heapFrom_def by simp
    with pj(2) less.prems have "start (a ! j) \<le> start (a ! ?p)"
      unfolding dominates_def by metis
    moreover from less.IH [OF pj(1)] pj(1) less.prems have "start (a ! ?p) \<le> start (a ! 0)" by simp
    ultimately show ?thesis by simp
  qed
qed

lemma buildHeap_heap:
  "n \<le> length a \<Longrightarrow> - 1 \<le> i \<Longrightarrow> heapFrom a n (nat (i + 1)) \<Longrightarrow>
     heapFrom (buildHeap a n i) n 0 \<and> mset (buildHeap a n i) = mset a"
proof (induction a n i rule: buildHeap.induct)
  case (1 a n i)
  show ?case
  proof (cases "i \<ge> 0")
    case False
    then have stop: "buildHeap a n i = a" by (simp add: buildHeap.simps [of a n i])
    from False "1.prems" have "nat (i + 1) = 0" by simp
    with "1.prems" stop show ?thesis by simp
  next
    case True
    let ?a1 = "heapify a n (nat i)"
    from True have ni: "nat (i + 1) = nat i + 1" by simp
    from "1.prems"(3) have "heapExcept a n (nat i) (nat i)"
      unfolding heapExcept_def heapFrom_def ni by auto
    from heapify_heap [OF "1.prems"(1) this] have h: "heapFrom ?a1 n (nat i)" by simp
    from heapify_basic [OF "1.prems"(1), of "nat i"]
    have b: "length ?a1 = length a" "mset ?a1 = mset a" by simp_all
    from "1.prems"(1) b have len: "n \<le> length ?a1" by simp
    from True have "- 1 \<le> i - 1" "nat (i - 1 + 1) = nat i" by simp_all
    with "1.IH" [OF True len] h
    have "heapFrom (buildHeap ?a1 n (i - 1)) n 0 \<and> mset (buildHeap ?a1 n (i - 1)) = mset ?a1"
      by simp
    with True b show ?thesis by (simp add: buildHeap.simps [of a n i])
  qed
qed

lemma leaves_heap: "heapFrom a n (n div 2)"
  unfolding heapFrom_def dominates_def by auto

lemma sortLoop_sorted:
  "e < int (length a) \<Longrightarrow> - 1 \<le> e \<Longrightarrow> heapFrom a (nat (e + 1)) 0 \<Longrightarrow>
   sorted (map start (drop (nat (e + 1)) a)) \<Longrightarrow>
   (\<forall>x\<in>set (take (nat (e + 1)) a). \<forall>y\<in>set (drop (nat (e + 1)) a). start x \<le> start y) \<Longrightarrow>
     sorted (map start (sortLoop a e)) \<and> mset (sortLoop a e) = mset a"
proof (induction a e rule: sortLoop.induct)
  case (1 a e)
  note len = "1.prems"(1) and heap = "1.prems"(3) and srt = "1.prems"(4) and below = "1.prems"(5)
  show ?case
  proof (cases "e > 0")
    case False
    with "1.prems"(2) have e: "e = 0 \<or> e = - 1" by auto
    have "sorted (map start a)"
    proof (cases "e = 0")
      case True
      with len obtain x xs where a: "a = x # xs" by (cases a) auto
      with True srt below show ?thesis by simp
    next
      case False
      with e srt show ?thesis by simp
    qed
    with False show ?thesis by (simp add: sortLoop.simps [of a e])
  next
    case True
    define E where "E = nat e"
    from True len have E: "0 < E" "E < length a" "nat (e + 1) = E + 1" "nat e = E"
      "nat (e - 1 + 1) = E" by (simp_all add: E_def)
    define a' where "a' = a[0 := a ! E, E := a ! 0]"
    define b where "b = heapify a' E 0"
    from E have ne: "a \<noteq> []" by auto
    have nth: "a' ! k = (if k = E then a ! 0 else if k = 0 then a ! E else a ! k)"
      if "k \<le> E" for k
      using that E ne unfolding a'_def by (auto simp: nth_list_update)
    have la': "length a' = length a" by (simp add: a'_def)
    then have Ele: "E \<le> length a'" using E by simp
    from heapify_basic [OF Ele, of 0]
    have hb: "length b = length a" "mset b = mset a'" "mset (take E b) = mset (take E a')"
      "drop E b = drop E a'" by (simp_all add: b_def la')
    have ma': "mset a' = mset a" unfolding a'_def by (rule mset_swap) (use E in auto)
    \<comment> \<open>the heap before \<open>E\<close> is repaired\<close>
    have "heapExcept a' E 0 0"
      unfolding heapExcept_def
    proof (intro conjI allI impI)
      fix j :: nat
      assume "j \<noteq> 0"
      from heap have d: "dominates a (E + 1) j" unfolding heapFrom_def E by simp
      show "dominates a' E j"
        unfolding dominates_def
      proof (intro conjI impI)
        assume c: "2 * j + 1 < E"
        with E \<open>j \<noteq> 0\<close> have "a' ! (2 * j + 1) = a ! (2 * j + 1)" "a' ! j = a ! j"
          by (simp_all add: nth)
        with d c show "start (a' ! (2 * j + 1)) \<le> start (a' ! j)" by (simp add: dominates_def)
      next
        assume c: "2 * j + 2 < E"
        with E \<open>j \<noteq> 0\<close> have "a' ! (2 * j + 2) = a ! (2 * j + 2)" "a' ! j = a ! j"
          by (simp_all add: nth)
        with d c show "start (a' ! (2 * j + 2)) \<le> start (a' ! j)" by (simp add: dominates_def)
      qed
    qed simp_all
    from heapify_heap [OF Ele this] have hpb: "heapFrom b E 0" by (simp add: b_def)
    \<comment> \<open>the old root is behind the heap, before the sorted part\<close>
    have root: "start x \<le> start (a ! 0)" if "x \<in> set (take (E + 1) a)" for x
    proof -
      from that obtain j where "j < E + 1" "x = a ! j"
        using E by (auto simp: in_set_conv_nth)
      with heap_root_max [of a "E + 1" j] heap E show ?thesis by simp
    qed
    have dropb: "drop E b = a ! 0 # drop (E + 1) a"
    proof -
      have "drop E a' = a' ! E # drop (E + 1) a'" using E la' by (simp add: Cons_nth_drop_Suc)
      moreover have "drop (E + 1) a' = drop (E + 1) a" using E by (simp add: a'_def)
      moreover have "a' ! E = a ! 0" using E by (simp add: nth)
      ultimately show ?thesis using hb(4) by simp
    qed
    have a0: "a ! 0 \<in> set (take (E + 1) a)"
      using E by (auto simp: in_set_conv_nth intro!: exI [of _ 0])
    have sub: "set (take E b) \<subseteq> set (take (E + 1) a)"
    proof
      fix x assume "x \<in> set (take E b)"
      then have "x \<in> set (take E a')" using hb(3) by (metis set_mset_mset)
      then obtain j where j: "j < E" "x = a' ! j" using E la' by (auto simp: in_set_conv_nth)
      show "x \<in> set (take (E + 1) a)"
      proof (cases "j = 0")
        case True
        with j E have "x = a ! E" by (simp add: nth)
        with E show ?thesis by (auto simp: in_set_conv_nth intro!: exI [of _ E])
      next
        case False
        with j E have "x = a ! j" by (simp add: nth)
        with j E show ?thesis by (auto simp: in_set_conv_nth intro!: exI [of _ j])
      qed
    qed
    have srtb: "sorted (map start (drop E b))"
      using srt below a0 unfolding dropb E by simp
    have belowb: "\<forall>x\<in>set (take E b). \<forall>y\<in>set (drop E b). start x \<le> start y"
      using sub root below unfolding dropb E by auto
    from len hb(1) have lenb: "e - 1 < int (length b)" by simp
    from True have ge: "- 1 \<le> e - 1" by simp
    have rec: "sortLoop a e = sortLoop b (e - 1)"
      using True by (simp add: sortLoop.simps [of a e] b_def a'_def E_def)
    have "sorted (map start (sortLoop b (e - 1))) \<and> mset (sortLoop b (e - 1)) = mset b"
      using "1.IH" [OF True, folded E_def, folded a'_def, folded b_def, OF lenb ge]
        hpb srtb belowb unfolding E by blast
    with rec hb(2) ma' show ?thesis by simp
  qed
qed

lemma sortAllocations_sorted:
  "sorted (map start (sortAllocations a)) \<and> mset (sortAllocations a) = mset a"
proof -
  let ?n = "length a"
  let ?h = "buildHeap a ?n (int ?n div 2 - 1)"
  have "nat (int ?n div 2 - 1 + 1) = ?n div 2" by (simp add: nat_div_distrib)
  with leaves_heap [of a ?n] have "heapFrom a ?n (nat (int ?n div 2 - 1 + 1))" by simp
  moreover have "- 1 \<le> int ?n div 2 - 1" by simp
  ultimately have h: "heapFrom ?h ?n 0" "mset ?h = mset a"
    using buildHeap_heap [of ?n a "int ?n div 2 - 1"] by simp_all
  from h(2) have lh: "length ?h = ?n" by (metis size_mset)
  have "sorted (map start (sortLoop ?h (int ?n - 1))) \<and> mset (sortLoop ?h (int ?n - 1)) = mset ?h"
  proof (rule sortLoop_sorted)
    show "int ?n - 1 < int (length ?h)" using lh by simp
    show "- 1 \<le> int ?n - 1" by simp
    show "heapFrom ?h (nat (int ?n - 1 + 1)) 0" using h(1) by simp
    show "sorted (map start (drop (nat (int ?n - 1 + 1)) ?h))" using lh by simp
    show "\<forall>x\<in>set (take (nat (int ?n - 1 + 1)) ?h). \<forall>y\<in>set (drop (nat (int ?n - 1 + 1)) ?h).
        start x \<le> start y" using lh by simp
  qed
  with h(2) show ?thesis by (simp add: sortAllocations_def Let_def)
qed

lemma sorted_sortedByStart: "sorted (map start xs) \<Longrightarrow> sortedByStart xs"
  by (induction xs rule: sortedByStart.induct) simp_all

text \<open>
  C3.  After \<open>prepareGC\<close> the registry holds the records it held before, each as
  often as before (a permutation), with the flag \<open>marked\<close> false and
  the link \<open>next\<close> nil in every record; for all adjacent records the start of the first
  is not above the start of the second; and the head of the scan queue is nil.
\<close>

theorem prepareGC_sorts_and_clears:
  "mset (allocations (prepareGC s)) =
     image_mset (\<lambda>r. r\<lparr>marked := False, next' := None\<rparr>) (mset (allocations s)) \<and>
   sortedByStart (allocations (prepareGC s)) \<and>
   (\<forall>r\<in>set (allocations (prepareGC s)). \<not> marked r \<and> next' r = None) \<and>
   referenceScanQueue (prepareGC s) = None"
proof -
  let ?srt = "sortAllocations (allocations s)"
  from sortAllocations_sorted [of "allocations s"]
  have s: "sorted (map start ?srt)" and m: "mset ?srt = mset (allocations s)" by simp_all
  have "map start (unmarkAllocations ?srt) = map start ?srt"
    by (simp add: unmarkAllocations_def comp_def)
  with s have "sorted (map start (unmarkAllocations ?srt))" by simp
  then have 1: "sortedByStart (unmarkAllocations ?srt)" by (rule sorted_sortedByStart)
  have 2: "mset (unmarkAllocations ?srt) =
      image_mset (\<lambda>r. r\<lparr>marked := False, next' := None\<rparr>) (mset (allocations s))"
    by (simp add: unmarkAllocations_def m)
  have 3: "\<forall>r\<in>set (unmarkAllocations ?srt). \<not> marked r \<and> next' r = None"
    by (auto simp: unmarkAllocations_def)
  from 1 2 3 show ?thesis by (simp add: prepareGC_def)
qed

lemmas sort_defs = prepareGC_def sortAllocations_def unmarkAllocations_def
  buildHeap.simps sortLoop.simps heapify.simps

theorem prepareGC_sorts_and_clears_witness:
  "sortedByStart (allocations (prepareGC unsortedState)) \<and>
   referenceScanQueue (prepareGC unsortedState) = None \<and>
   allocations (prepareGC unsortedState) =
     [\<lparr>start = 4096, end' = 4112, marked = False, next' = None\<rparr>,
      \<lparr>start = 4200, end' = 4220, marked = False, next' = None\<rparr>,
      \<lparr>start = 4352, end' = 4364, marked = False, next' = None\<rparr>,
      \<lparr>start = 4608, end' = 4620, marked = False, next' = None\<rparr>]"
proof -
  have "allocations (prepareGC unsortedState) =
     [\<lparr>start = 4096, end' = 4112, marked = False, next' = None\<rparr>,
      \<lparr>start = 4200, end' = 4220, marked = False, next' = None\<rparr>,
      \<lparr>start = 4352, end' = 4364, marked = False, next' = None\<rparr>,
      \<lparr>start = 4608, end' = 4620, marked = False, next' = None\<rparr>]"
    by (simp add: unsortedState_def bootState_def sort_defs Let_def)
  with prepareGC_sorts_and_clears [of unsortedState] show ?thesis by blast
qed

section \<open>Termination of the drain loop\<close>

lemma markStep_refl: "markStep s s"
  unfolding markStep_def by blast

lemma markStep_trans: "markStep s t \<Longrightarrow> markStep t u \<Longrightarrow> markStep s u"
  unfolding markStep_def by (meson le_trans)

lemma linked_update:
  "linked a q is \<Longrightarrow> j \<notin> set is \<Longrightarrow> linked (a[j := x]) q is"
  by (induction "is" arbitrary: q) auto

lemma filter_update_count:
  assumes "j < length a" "\<not> marked (a ! j)" "marked x"
  shows "length (filter (\<lambda>r. \<not> marked r) (a[j := x])) + 1 = length (filter (\<lambda>r. \<not> marked r) a)"
proof -
  have a: "a = take j a @ a ! j # drop (Suc j) a" using assms(1) by (simp add: id_take_nth_drop)
  have "a[j := x] = take j a @ x # drop (Suc j) a" using assms(1) by (simp add: upd_conv_take_nth_drop)
  then have "length (filter (\<lambda>r. \<not> marked r) (a[j := x])) + 1 =
      length (filter (\<lambda>r. \<not> marked r) (take j a @ a ! j # drop (Suc j) a))"
    using assms(2,3) by simp
  with a show ?thesis by simp
qed

lemma pushMarked_step:
  assumes j: "j < length (allocations s)" "\<not> marked (allocations s ! j)"
  shows "markStep s (pushMarked j s)"
  unfolding markStep_def
proof (intro conjI allI impI)
  fix "is" assume inv: "queueInv s is"
  let ?a = "allocations s"
  let ?x = "(?a ! j)\<lparr>marked := True, next' := referenceScanQueue s\<rparr>"
  from inv j have nin: "j \<notin> set is" unfolding queueInv_def by auto
  from inv have l: "linked ?a (referenceScanQueue s) is" and d: "distinct is"
    and mk: "\<forall>i\<in>set is. marked (?a ! i)" unfolding queueInv_def by simp_all
  from linked_update [OF l nin] j have "linked (?a[j := ?x]) (Some j) (j # is)" by simp
  moreover from d nin have "distinct (j # is)" by simp
  moreover from mk nin j have "\<forall>i\<in>set (j # is). marked (?a[j := ?x] ! i)"
    by (auto simp: nth_list_update)
  ultimately have "queueInv (pushMarked j s) (j # is)"
    unfolding queueInv_def pushMarked_def by (simp del: linked.simps distinct.simps)
  moreover from filter_update_count [OF j, of ?x]
  have "unmarkedCount (pushMarked j s) + length (j # is) \<le> unmarkedCount s + length is"
    by (simp add: unmarkedCount_def pushMarked_def)
  ultimately show "\<exists>is'. queueInv (pushMarked j s) is' \<and>
      unmarkedCount (pushMarked j s) + length is' \<le> unmarkedCount s + length is" by blast
next
  assume b: "endsBounded s"
  show "endsBounded (pushMarked j s)"
    unfolding endsBounded_def pushMarked_def
  proof
    fix r assume "r \<in> set (allocations (s\<lparr>allocations := (allocations s)[j := (allocations s ! j)
        \<lparr>marked := True, next' := referenceScanQueue s\<rparr>], referenceScanQueue := Some j\<rparr>))"
    then have "r = (allocations s ! j)\<lparr>marked := True, next' := referenceScanQueue s\<rparr>
        \<or> r \<in> set (allocations s)"
      using set_update_subset_insert [of "allocations s" j] by auto
    with b j show "end' r < 0xFFFFFFFC" unfolding endsBounded_def by auto
  qed
qed

lemma mark_step: "markStep s (snd (mark addr s))"
proof -
  have "snd (mark addr s) = s \<or>
    (\<exists>j<length (allocations s). \<not> marked (allocations s ! j) \<and> snd (mark addr s) = pushMarked j s)"
  proof (cases "searchAllocations s addr")
    case None
    then show ?thesis by (simp add: mark_def)
  next
    case (Some j)
    then have "j < length (allocations s)"
      using searchLoop_Some [of "allocations s" addr 0 "length (allocations s)" j]
      by (simp add: searchAllocations_def)
    with Some show ?thesis by (auto simp: mark_def pushMarked_def)
  qed
  then show ?thesis by (auto simp: markStep_refl pushMarked_step)
qed

lemma scan_loop_step:
  assumes "scan_loop w a e s = Some s'"
  shows "markStep s s'"
proof (rule scan_loop.raw_induct [where P = "\<lambda>w a e s s'. markStep s s'", OF _ assms])
  fix f w a e s s'
  assume IH: "\<And>w a e s y. f w a e s = Some y \<Longrightarrow> markStep s y"
    and eq: "(if a + 4 \<le> e then f w (a + 4) e (snd (mark (mem w a) s)) else Some s) = Some s'"
  show "markStep s s'"
  proof (cases "a + 4 \<le> e")
    case True
    with eq have "f w (a + 4) e (snd (mark (mem w a) s)) = Some s'" by simp
    from mark_step IH [OF this] show ?thesis by (rule markStep_trans)
  next
    case False
    with eq show ?thesis by (simp add: markStep_refl)
  qed
qed

lemma scan_step:
  assumes "scan w a e s = Some s'"
  shows "markStep s s'"
proof -
  from assms obtain s1 where
    s1: "scan_loop w ((a + 4 - 1) AND NOT (4 - 1)) e s = Some s1"
    and s': "s' = (if e \<ge> ((a + 4 - 1) AND NOT (4 - 1)) + 4 then snd (mark (mem w (e - 4)) s1) else s1)"
    by (auto simp: scan_def Let_def split: option.splits)
  from scan_loop_step [OF s1] have a: "markStep s s1" .
  have "markStep s1 s'" unfolding s' by (simp add: mark_step markStep_refl)
  with a show ?thesis by (rule markStep_trans)
qed

lemma markRanges_step: "markRanges w rs s = Some s' \<Longrightarrow> markStep s s'"
proof (induction rs arbitrary: s)
  case Nil
  then show ?case by (simp add: markStep_refl)
next
  case (Cons r rs)
  obtain lo hi where r: "r = (lo, hi)" by (cases r)
  from Cons.prems obtain s1 where s1: "scan w lo hi s = Some s1" and rest: "markRanges w rs s1 = Some s'"
    by (auto simp: r markRoots_def split: option.splits)
  from scan_step [OF s1] Cons.IH [OF rest] show ?case by (rule markStep_trans)
qed

lemma scan_loop_returns:
  assumes "e < 0xFFFFFFFC"
  shows "\<exists>s'. scan_loop w a e s = Some s'"
proof (induction "2 ^ 32 - unat (a + 4)" arbitrary: a s rule: less_induct)
  case less
  show ?case
  proof (cases "a + 4 \<le> e")
    case False
    then show ?thesis by (subst scan_loop.simps) simp
  next
    case True
    from assms have ue: "unat e < 4294967292" by (simp add: word_less_nat_alt)
    from True have "unat (a + 4) \<le> unat e" by (simp add: word_le_nat_alt)
    with ue have small: "unat (a + 4) + unat (4 :: uintptr) < 2 ^ LENGTH(32)" by simp
    then have "unat (a + 4 + 4) = unat (a + 4) + unat (4 :: uintptr)"
      by (simp only: unat_add_lem)
    with small have "(2::nat) ^ 32 - unat (a + 4 + 4) < 2 ^ 32 - unat (a + 4)" by simp
    from less [OF this, of "snd (mark (mem w a) s)"]
    obtain s' where "scan_loop w (a + 4) e (snd (mark (mem w a) s)) = Some s'" ..
    with True have "scan_loop w a e s = Some s'" by (subst scan_loop.simps) simp
    then show ?thesis ..
  qed
qed

lemma scan_returns:
  assumes "e < 0xFFFFFFFC"
  shows "\<exists>s'. scan w a e s = Some s'"
proof -
  from scan_loop_returns [OF assms]
  obtain s1 where "scan_loop w ((a + 4 - 1) AND NOT (4 - 1)) e s = Some s1" by blast
  then show ?thesis by (simp add: scan_def Let_def)
qed

lemma finishMarking_returns:
  "queueInv s is \<Longrightarrow> endsBounded s \<Longrightarrow>
     \<exists>s'. finishMarking w s = Some s' \<and> referenceScanQueue s' = None"
proof (induction "unmarkedCount s + length is" arbitrary: s "is" rule: less_induct)
  case less
  note inv = less.prems(1) and bnd = less.prems(2)
  show ?case
  proof (cases "is")
    case Nil
    with inv have "referenceScanQueue s = None" by (simp add: queueInv_def)
    then show ?thesis by (subst finishMarking.simps) simp
  next
    case (Cons i js)
    let ?a = "allocations s"
    let ?s1 = "s\<lparr>referenceScanQueue := next' (?a ! i)\<rparr>"
    from inv Cons have q: "referenceScanQueue s = Some i" and i: "i < length ?a"
      and l: "linked ?a (next' (?a ! i)) js" and d: "distinct js"
      and mk: "\<forall>k\<in>set js. marked (?a ! k)"
      by (simp_all add: queueInv_def)
    from l d mk have inv1: "queueInv ?s1 js" by (simp add: queueInv_def)
    from bnd have bnd1: "endsBounded ?s1" by (simp add: endsBounded_def)
    from bnd i have "end' (?a ! i) < 0xFFFFFFFC" by (simp add: endsBounded_def)
    from scan_returns [OF this] obtain s2 where
      s2: "scan w (start (?a ! i)) (end' (?a ! i)) ?s1 = Some s2" by blast
    from scan_step [OF s2] inv1 bnd1 obtain ks where
      inv2: "queueInv s2 ks" and le: "unmarkedCount s2 + length ks \<le> unmarkedCount ?s1 + length js"
      and bnd2: "endsBounded s2"
      unfolding markStep_def by blast
    from le Cons have "unmarkedCount s2 + length ks < unmarkedCount s + length is"
      by (simp add: unmarkedCount_def)
    from less.hyps [OF this inv2 bnd2] obtain s' where
      "finishMarking w s2 = Some s'" "referenceScanQueue s' = None" by blast
    with q s2 have "finishMarking w s = Some s' \<and> referenceScanQueue s' = None"
      by (subst finishMarking.simps) simp
    then show ?thesis ..
  qed
qed

lemma prepareGC_inv: "queueInv (prepareGC s) []"
  by (simp add: queueInv_def prepareGC_def)

lemma prepareGC_bounded:
  assumes "endsBounded s"
  shows "endsBounded (prepareGC s)"
proof -
  from sortAllocations_sorted [of "allocations s"]
  have "set (sortAllocations (allocations s)) = set (allocations s)" by (metis set_mset_mset)
  with assms show ?thesis
    by (auto simp: endsBounded_def prepareGC_def unmarkAllocations_def)
qed

text \<open>
  C4 (as amended).  In a collection cycle over any registry whose records all end below
  \<open>0xFFFFFFFC\<close>, once the roots have been marked, \<open>finishMarking\<close> returns and leaves
  the scan queue empty: every pop removes one record from the queue and a record is
  only pushed when it passes from unmarked to marked, so the number of unmarked records
  plus the length of the queue decreases with every pop.
\<close>

theorem finishMarking_terminates:
  assumes "endsBounded s" and "markStack w (prepareGC s) = Some s2"
    and "findGlobals w s2 = Some s3"
  shows "\<exists>s'. finishMarking w s3 = Some s' \<and> referenceScanQueue s' = None"
proof -
  from assms(2) have "markStep (prepareGC s) s2" by (simp add: markStack_def markRanges_step)
  moreover from assms(3) have "markStep s2 s3" by (simp add: findGlobals_def markRanges_step)
  ultimately have "markStep (prepareGC s) s3" by (rule markStep_trans)
  with prepareGC_inv [of s] prepareGC_bounded [OF assms(1)]
  obtain ks where "queueInv s3 ks" "endsBounded s3" unfolding markStep_def by blast
  then show ?thesis by (rule finishMarking_returns)
qed

theorem finishMarking_terminates_witness:
  "endsBounded chainState \<and>
   markStack chainWorld (prepareGC chainState) = Some chainRooted \<and>
   findGlobals chainWorld chainRooted = Some chainRooted \<and>
   finishMarking chainWorld chainRooted = Some chainDone \<and>
   (\<exists>s'. finishMarking chainWorld chainRooted = Some s' \<and> referenceScanQueue s' = None)"
proof -
  have 0: "endsBounded chainState"
    by (simp add: endsBounded_def chainState_def)
  have 1: "markStack chainWorld (prepareGC chainState) = Some chainRooted"
    by (simp add: chainWorld_def chainState_def chainRooted_def exampleWorld_def bootState_def
        gc_defs Let_def)
  have 2: "findGlobals chainWorld chainRooted = Some chainRooted"
    by (simp add: chainWorld_def exampleWorld_def findGlobals_def)
  have 3: "finishMarking chainWorld chainRooted = Some chainDone"
    by (simp add: chainWorld_def chainRooted_def chainDone_def exampleWorld_def bootState_def
        gc_defs Let_def)
  from finishMarking_terminates [OF 0 1 2] 0 1 2 3 show ?thesis by blast
qed

text \<open>
  C4 (as stated) fails for a record that ends at \<open>0xFFFFFFFF\<close>: in \<open>scan\<close> the test
  \<open>addr + 4 \<le> end\<close> is then true for every address, the sum wraps around, and the loop
  never ends.  In the cycle below a word of the stack points to such a record; marking
  the roots returns and \<open>finishMarking\<close> does not.
\<close>

lemma scan_loop_top_Some:
  assumes "scan_loop w a e s = Some s'"
  shows "e \<noteq> 0xFFFFFFFF"
proof (rule scan_loop.raw_induct [where P = "\<lambda>w a e s s'. e \<noteq> 0xFFFFFFFF", OF _ assms])
  fix f w a e s s'
  assume IH: "\<And>w a e s y. f w a e s = Some y \<Longrightarrow> e \<noteq> 0xFFFFFFFF"
    and eq: "(if a + 4 \<le> e then f w (a + 4) e (snd (mark (mem w a) s)) else Some s) = Some s'"
  show "e \<noteq> 0xFFFFFFFF"
  proof
    assume e: "e = 0xFFFFFFFF"
    have "(0xFFFFFFFF :: uintptr) = - 1" by simp
    with e have "a + 4 \<le> e" by simp
    with eq have "f w (a + 4) e (snd (mark (mem w a) s)) = Some s'" by simp
    from IH [OF this] e show False by simp
  qed
qed

lemma scan_loop_top: "scan_loop w a 0xFFFFFFFF s = None"
proof (cases "scan_loop w a 0xFFFFFFFF s")
  case None
  then show ?thesis .
next
  case (Some s')
  from scan_loop_top_Some [OF this] show ?thesis by simp
qed

theorem finishMarking_top_counterexample:
  "markStack topWorld (prepareGC topState) = Some topRooted \<and>
   findGlobals topWorld topRooted = Some topRooted \<and>
   finishMarking topWorld topRooted = None"
proof -
  have 1: "markStack topWorld (prepareGC topState) = Some topRooted"
    by (simp add: topWorld_def topState_def topRooted_def exampleWorld_def bootState_def gc_defs Let_def)
  have 2: "findGlobals topWorld topRooted = Some topRooted"
    by (simp add: topWorld_def exampleWorld_def findGlobals_def)
  have "scan topWorld 0xFFFFFFF0 0xFFFFFFFF s = None" for s
    by (simp add: scan_def scan_loop_top)
  then have 3: "finishMarking topWorld topRooted = None"
    by (subst finishMarking.simps) (simp add: topRooted_def bootState_def)
  from 1 2 3 show ?thesis by simp
qed

section \<open>The tracing and the leaking variant\<close>








end
